theory Spec2Isabelle
  imports Main "HOL-Library.Word" "HOL-Library.Multiset"
begin

unbundle bit_operations_syntax

section \<open>Go values and the library functions the migrator calls\<close>

text \<open>
  The migrator is a Go program. Its \<open>int\<close> is the 64-bit two's complement integer of
  the platforms it is built for, a \<open>byte\<close> is an unsigned 8-bit value and strings are
  byte sequences (\<open>char\<close> is a byte here as well).
\<close>

type_synonym go_int = "64 word"
type_synonym byte = "8 word"
type_synonym uint32 = "32 word"

subsection \<open>Decimal text: \<open>strconv\<close> and \<open>fmt\<close>\<close>

definition isDigit :: "char \<Rightarrow> bool" where
  "isDigit c = (of_char CHR ''0'' \<le> (of_char c :: nat) \<and> (of_char c :: nat) \<le> of_char CHR ''9'')"

definition digitVal :: "char \<Rightarrow> nat" where
  "digitVal c = of_char c - of_char CHR ''0''"

definition digitChar :: "nat \<Rightarrow> char" where
  "digitChar d = char_of (of_char CHR ''0'' + d)"

text \<open>Decimal rendering of an unsigned value (\<open>uitoa\<close> of package \<open>net\<close>, \<open>%d\<close> of \<open>fmt\<close>).\<close>

fun uitoa :: "nat \<Rightarrow> string" where
  "uitoa n = (if n < 10 then [digitChar n] else uitoa (n div 10) @ [digitChar (n mod 10)])"

declare uitoa.simps [simp del]

definition Itoa :: "int \<Rightarrow> string" where
  "Itoa i = (if i < 0 then CHR ''-'' # uitoa (nat (- i)) else uitoa (nat i))"

text \<open>\<open>fmt.Sprintf("%s/%d", s, n)\<close> for a string and an \<open>int\<close>.\<close>

definition Sprintf_s_d :: "string \<Rightarrow> go_int \<Rightarrow> string" where
  "Sprintf_s_d s n = s @ ''/'' @ Itoa (sint n)"

datatype NumError = ErrSyntax | ErrRange

text \<open>
  \<open>strconv.ParseUint(s, 10, bitSize)\<close>: the accumulator is a \<open>uint64\<close>, written here
  as a natural number with the wrap-around of its arithmetic spelled out. The first
  argument of the loop is \<open>maxVal\<close>.
\<close>

fun ParseUint_loop :: "nat \<Rightarrow> nat \<Rightarrow> string \<Rightarrow> NumError + nat" where
  "ParseUint_loop maxVal n [] = Inr n"
| "ParseUint_loop maxVal n (c # cs) =
     (if \<not> isDigit c then Inl ErrSyntax
      else if n \<ge> (2 ^ 64 - 1) div 10 + 1 then Inl ErrRange
      else let n' = (n * 10) mod 2 ^ 64;
               n1 = (n' + digitVal c) mod 2 ^ 64
           in if n1 < n' \<or> n1 > maxVal then Inl ErrRange
              else ParseUint_loop maxVal n1 cs)"

definition ParseUint :: "string \<Rightarrow> nat \<Rightarrow> NumError + nat" where
  "ParseUint s bitSize =
     (if s = [] then Inl ErrSyntax else ParseUint_loop (2 ^ bitSize - 1) 0 s)"

subsection \<open>IPv4 addresses: \<open>encoding/binary\<close> and \<open>net\<close>\<close>

text \<open>A four-byte \<open>net.IP\<close>, first octet first.\<close>

type_synonym IPv4 = "byte \<times> byte \<times> byte \<times> byte"

definition PutUint32 :: "uint32 \<Rightarrow> IPv4" where
  "PutUint32 v = (ucast (drop_bit 24 v), ucast (drop_bit 16 v), ucast (drop_bit 8 v), ucast v)"

definition Uint32 :: "IPv4 \<Rightarrow> uint32" where
  "Uint32 ip = (case ip of (a, b, c, d) \<Rightarrow>
     ucast d OR push_bit 8 (ucast c) OR push_bit 16 (ucast b) OR push_bit 24 (ucast a))"

definition IP_String :: "IPv4 \<Rightarrow> string" where
  "IP_String ip = (case ip of (a, b, c, d) \<Rightarrow>
     uitoa (unat a) @ ''.'' @ uitoa (unat b) @ ''.'' @ uitoa (unat c) @ ''.'' @ uitoa (unat d))"

text \<open>
  \<open>dtoi\<close> of package \<open>net\<close>: the decimal number at the start of the string, the number
  of bytes it takes, and whether there was one below \<open>big = 0xFFFFFF\<close>.
\<close>

fun dtoi_loop :: "nat \<Rightarrow> nat \<Rightarrow> string \<Rightarrow> nat \<times> nat \<times> bool" where
  "dtoi_loop n i [] = (if i = 0 then (0, 0, False) else (n, i, True))"
| "dtoi_loop n i (c # cs) =
     (if isDigit c then
        (let n' = n * 10 + digitVal c
         in if n' \<ge> 0xFFFFFF then (0xFFFFFF, i, False) else dtoi_loop n' (i + 1) cs)
      else if i = 0 then (0, 0, False) else (n, i, True))"

definition dtoi :: "string \<Rightarrow> nat \<times> nat \<times> bool" where
  "dtoi s = dtoi_loop 0 0 s"

text \<open>
  \<open>parseIPv4\<close> of package \<open>net\<close>: four decimal fields of at most 255 separated by
  dots, and nothing after them. The loop counter \<open>i\<close> runs from 0 to 3; the result of
  the loop is the list of the octets read and the rest of the text.
\<close>

function parseIPv4_loop :: "nat \<Rightarrow> string \<Rightarrow> (byte list \<times> string) option" where
  "parseIPv4_loop i s =
     (if i < 4 then
        (if s = [] then None
         else if i > 0 \<and> hd s \<noteq> CHR ''.'' then None
         else let s1 = (if i > 0 then tl s else s)
              in case dtoi s1 of (n, c, ok) \<Rightarrow>
                   if \<not> ok \<or> n > 0xFF then None
                   else (case parseIPv4_loop (i + 1) (drop c s1) of
                           None \<Rightarrow> None
                         | Some (p, r) \<Rightarrow> Some (word_of_nat n # p, r)))
      else Some ([], s))"
  by pat_completeness auto
termination
  by (relation "measure (\<lambda>(i, s). 4 - i)") auto

declare parseIPv4_loop.simps [simp del]

definition parseIPv4 :: "string \<Rightarrow> IPv4 option" where
  "parseIPv4 s =
     (case parseIPv4_loop 0 s of
        Some ([a, b, c, d], []) \<Rightarrow> Some (a, b, c, d)
      | _ \<Rightarrow> None)"

text \<open>
  \<open>net.CIDRMask(ones, 32)\<close>: the loop writes \<open>0xff\<close> while at least eight one-bits
  remain, then the byte with the remaining ones on top, then zero bytes.
\<close>

definition maskByte :: "nat \<Rightarrow> byte" where
  "maskByte n = (if n \<ge> 8 then 0xff else NOT (drop_bit n 0xff))"

definition CIDRMask :: "nat \<Rightarrow> IPv4" where
  "CIDRMask ones = (maskByte ones, maskByte (ones - 8), maskByte (ones - 16), maskByte (ones - 24))"

definition IP_Mask :: "IPv4 \<Rightarrow> IPv4 \<Rightarrow> IPv4" where
  "IP_Mask ip m = (case ip of (a, b, c, d) \<Rightarrow> case m of (m0, m1, m2, m3) \<Rightarrow>
     (a AND m0, b AND m1, c AND m2, d AND m3))"

text \<open>
  A \<open>net.IPNet\<close> made by \<open>ParseCIDR\<close>: the network number and the mask \<open>CIDRMask(n, 32)\<close>,
  kept as its prefix length \<open>n\<close>, which is what \<open>IPNet.String\<close> prints for such a mask.
\<close>

type_synonym IPNet = "IPv4 \<times> nat"

definition IPNet_String :: "IPNet \<Rightarrow> string" where
  "IPNet_String net = (case net of (nn, l) \<Rightarrow> IP_String nn @ ''/'' @ uitoa l)"

text \<open>
  \<open>net.ParseCIDR\<close> on IPv4 text: the text is cut at its first \<open>/\<close>, the address is read
  by \<open>parseIPv4\<close>, the prefix length by \<open>dtoi\<close>, which must take the whole rest and give
  at most 32. The network number is the address under the mask.

  The library tries \<open>parseIPv6\<close> on an address that \<open>parseIPv4\<close> refuses, and that branch
  is not part of the model, which answers \<open>None\<close> there. The two agree on every text whose
  part before the first \<open>/\<close> has no colon (\<open>parseIPv6\<close> refuses such an address: its
  first group is followed by the end, by a dot out of place, or by a byte that is not a
  colon), and on every text with a second \<open>/\<close> (the prefix length then does not take the
  whole rest, whatever the address). They differ on IPv6 text, which the library parses.
  Every address the migrator hands over was printed by \<open>IP_String\<close>; the claims about the
  resolver are stated for such addresses, or for addresses on which the two agree.
\<close>

definition ParseCIDR :: "string \<Rightarrow> (IPv4 \<times> IPNet) option" where
  "ParseCIDR s =
     (if CHR ''/'' \<notin> set s then None
      else let addr = takeWhile (\<lambda>c. c \<noteq> CHR ''/'') s;
               mask = tl (dropWhile (\<lambda>c. c \<noteq> CHR ''/'') s)
           in case parseIPv4 addr of
                None \<Rightarrow> None
              | Some ip \<Rightarrow>
                  (case dtoi mask of (n, i, ok) \<Rightarrow>
                     if \<not> ok \<or> i \<noteq> length mask \<or> n > 32 then None
                     else Some (ip, (IP_Mask ip (CIDRMask n), n))))"

subsection \<open>The address codec of \<open>main.go\<close>\<close>

text \<open>
  \<open>decimalIPAddrToString\<close>: \<open>Inl\<close> is the error of \<open>ParseUint\<close> (the Go function
  returns the empty string with it), \<open>Inr\<close> the dotted quad.
\<close>

definition decimalIPAddrToString :: "string \<Rightarrow> NumError + string" where
  "decimalIPAddrToString addr =
     (case ParseUint addr 32 of
        Inl err \<Rightarrow> Inl err
      | Inr d \<Rightarrow> Inr (IP_String (PutUint32 (word_of_nat d))))"

section \<open>Records of the target system\<close>

text \<open>
  The three record types of the SDK. \<open>VLAN\<close> and \<open>Address\<close> are declared in packages
  whose sources are not at hand; they carry the fields the migrator reads or writes.
  \<open>Subnet\<close> is the struct of the \<open>subnets\<close> controller, field by field
  (\<open>BoolIntString\<close> is a boolean).
\<close>

record VLAN =
  VLAN_ID :: go_int
  VLAN_Name :: string
  VLAN_Number :: go_int
  VLAN_Description :: string

record Address =
  Address_SubnetID :: go_int
  Address_IPAddress :: string
  Address_Description :: string
  Address_Hostname :: string
  Address_Note :: string

record Subnet =
  ID :: go_int
  SubnetAddress :: string
  Mask :: go_int
  Description :: string
  SectionID :: go_int
  LinkedSubnet :: go_int
  VLANID :: go_int
  VRFID :: go_int
  MasterSubnetID :: go_int
  NameserverID :: go_int
  ShowName :: bool
  Permissions :: string
  DNSRecursive :: bool
  DNSRecords :: bool
  AllowRequests :: bool
  ScanAgent :: go_int
  PingSubnet :: bool
  DiscoverSubnet :: bool
  IsFolder :: bool
  IsFull :: bool
  State :: go_int
  Threshold :: go_int
  Location :: go_int
  EditDate :: string

text \<open>The zero value of the struct: what a composite literal leaves in the fields it omits.\<close>

definition Subnet_zero :: Subnet where
  "Subnet_zero = \<lparr>ID = 0, SubnetAddress = [], Mask = 0, Description = [], SectionID = 0,
     LinkedSubnet = 0, VLANID = 0, VRFID = 0, MasterSubnetID = 0, NameserverID = 0,
     ShowName = False, Permissions = [], DNSRecursive = False, DNSRecords = False,
     AllowRequests = False, ScanAgent = 0, PingSubnet = False, DiscoverSubnet = False,
     IsFolder = False, IsFull = False, State = 0, Threshold = 0, Location = 0, EditDate = []\<rparr>"

section \<open>Package \<open>helper\<close>: the sorter\<close>

text \<open>Go compares strings byte by byte; a proper prefix is smaller.\<close>

fun string_less :: "string \<Rightarrow> string \<Rightarrow> bool" where
  "string_less [] [] = False"
| "string_less [] (y # ys) = True"
| "string_less (x # xs) [] = False"
| "string_less (x # xs) (y # ys) =
     ((of_char x :: nat) < of_char y \<or> (x = y \<and> string_less xs ys))"

text \<open>
  \<open>sort.Interface\<close>: the three methods a collection gives to \<open>sort.Sort\<close>. Indices are
  natural numbers; the library calls the methods with indices inside the collection only.
\<close>

record 'd Interface =
  Len :: "'d \<Rightarrow> nat"
  Less :: "'d \<Rightarrow> nat \<Rightarrow> nat \<Rightarrow> bool"
  Swap :: "'d \<Rightarrow> nat \<Rightarrow> nat \<Rightarrow> 'd"

definition SubnetsSorter_Len :: "Subnet list \<Rightarrow> nat" where
  "SubnetsSorter_Len s = length s"

definition SubnetsSorter_Swap :: "Subnet list \<Rightarrow> nat \<Rightarrow> nat \<Rightarrow> Subnet list" where
  "SubnetsSorter_Swap s i j = s[i := s ! j, j := s ! i]"

definition SubnetsSorter_Less :: "Subnet list \<Rightarrow> nat \<Rightarrow> nat \<Rightarrow> bool" where
  "SubnetsSorter_Less s i j =
     string_less (Sprintf_s_d (SubnetAddress (s ! i)) (Mask (s ! i)))
                 (Sprintf_s_d (SubnetAddress (s ! j)) (Mask (s ! j)))"

definition SubnetsSorter :: "Subnet list Interface" where
  "SubnetsSorter = \<lparr>Len = SubnetsSorter_Len, Less = SubnetsSorter_Less, Swap = SubnetsSorter_Swap\<rparr>"

section \<open>Package \<open>sort\<close>\<close>

text \<open>
  \<open>sort.Sort\<close> as the Go releases of the migrator's time (1.8 up to 1.18) implement it:
  quicksort with a median-of-three pivot (a ninther on long ranges) and a heapsort
  fallback after \<open>maxDepth\<close> partitions; ranges of at most twelve elements get one pass
  of Shell sort with gap 6 followed by insertion sort. Loop variables that only move
  up are natural numbers; the two loops of \<open>heapSort\<close> count down to \<open>-1\<close> and keep an
  integer counter. The library documents that the sort is not guaranteed to be stable.
\<close>

function insertionSort_inner :: "'d Interface \<Rightarrow> 'd \<Rightarrow> nat \<Rightarrow> nat \<Rightarrow> 'd" where
  "insertionSort_inner I data a j =
     (if j > a \<and> Less I data j (j - 1)
      then insertionSort_inner I (Swap I data j (j - 1)) a (j - 1)
      else data)"
  by pat_completeness auto
termination
  by (relation "measure (\<lambda>(I, data, a, j). j)") auto

declare insertionSort_inner.simps [simp del]

function insertionSort_outer :: "'d Interface \<Rightarrow> 'd \<Rightarrow> nat \<Rightarrow> nat \<Rightarrow> nat \<Rightarrow> 'd" where
  "insertionSort_outer I data a b i =
     (if i < b
      then insertionSort_outer I (insertionSort_inner I data a i) a b (i + 1)
      else data)"
  by pat_completeness auto
termination
  by (relation "measure (\<lambda>(I, data, a, b, i). b - i)") auto

declare insertionSort_outer.simps [simp del]

definition insertionSort :: "'d Interface \<Rightarrow> 'd \<Rightarrow> nat \<Rightarrow> nat \<Rightarrow> 'd" where
  "insertionSort I data a b = insertionSort_outer I data a b (a + 1)"

function siftDown_loop :: "'d Interface \<Rightarrow> 'd \<Rightarrow> nat \<Rightarrow> nat \<Rightarrow> nat \<Rightarrow> 'd" where
  "siftDown_loop I data root hi first =
     (let child = 2 * root + 1
      in if child \<ge> hi then data
         else let child = (if child + 1 < hi \<and> Less I data (first + child) (first + child + 1)
                           then child + 1 else child)
              in if \<not> Less I data (first + root) (first + child) then data
                 else siftDown_loop I (Swap I data (first + root) (first + child)) child hi first)"
  by pat_completeness auto
termination
  by (relation "measure (\<lambda>(I, data, root, hi, first). hi - root)") (auto split: if_splits)

declare siftDown_loop.simps [simp del]

definition siftDown :: "'d Interface \<Rightarrow> 'd \<Rightarrow> nat \<Rightarrow> nat \<Rightarrow> nat \<Rightarrow> 'd" where
  "siftDown I data lo hi first = siftDown_loop I data lo hi first"

function heapSort_build :: "'d Interface \<Rightarrow> 'd \<Rightarrow> int \<Rightarrow> nat \<Rightarrow> nat \<Rightarrow> 'd" where
  "heapSort_build I data i hi first =
     (if i \<ge> 0
      then heapSort_build I (siftDown I data (nat i) hi first) (i - 1) hi first
      else data)"
  by pat_completeness auto
termination
  by (relation "measure (\<lambda>(I, data, i, hi, first). nat (i + 1))") auto

declare heapSort_build.simps [simp del]

function heapSort_pop :: "'d Interface \<Rightarrow> 'd \<Rightarrow> int \<Rightarrow> nat \<Rightarrow> 'd" where
  "heapSort_pop I data i first =
     (if i \<ge> 0
      then heapSort_pop I (siftDown I (Swap I data first (first + nat i)) 0 (nat i) first) (i - 1) first
      else data)"
  by pat_completeness auto
termination
  by (relation "measure (\<lambda>(I, data, i, first). nat (i + 1))") auto

declare heapSort_pop.simps [simp del]

definition heapSort :: "'d Interface \<Rightarrow> 'd \<Rightarrow> nat \<Rightarrow> nat \<Rightarrow> 'd" where
  "heapSort I data a b =
     (let first = a; hi = b - a;
          data = heapSort_build I data (int ((hi - 1) div 2)) hi first
      in heapSort_pop I data (int hi - 1) first)"

definition medianOfThree :: "'d Interface \<Rightarrow> 'd \<Rightarrow> nat \<Rightarrow> nat \<Rightarrow> nat \<Rightarrow> 'd" where
  "medianOfThree I data m1 m0 m2 =
     (let data = (if Less I data m1 m0 then Swap I data m1 m0 else data)
      in if Less I data m2 m1
         then (let data = Swap I data m2 m1
               in if Less I data m1 m0 then Swap I data m1 m0 else data)
         else data)"

function scan_lt :: "'d Interface \<Rightarrow> 'd \<Rightarrow> nat \<Rightarrow> nat \<Rightarrow> nat \<Rightarrow> nat" where
  "scan_lt I data pivot a c =
     (if a < c \<and> Less I data a pivot then scan_lt I data pivot (a + 1) c else a)"
  by pat_completeness auto
termination
  by (relation "measure (\<lambda>(I, data, pivot, a, c). c - a)") auto

declare scan_lt.simps [simp del]

function scan_le :: "'d Interface \<Rightarrow> 'd \<Rightarrow> nat \<Rightarrow> nat \<Rightarrow> nat \<Rightarrow> nat" where
  "scan_le I data pivot b c =
     (if b < c \<and> \<not> Less I data pivot b then scan_le I data pivot (b + 1) c else b)"
  by pat_completeness auto
termination
  by (relation "measure (\<lambda>(I, data, pivot, b, c). c - b)") auto

declare scan_le.simps [simp del]

function scan_gt :: "'d Interface \<Rightarrow> 'd \<Rightarrow> nat \<Rightarrow> nat \<Rightarrow> nat \<Rightarrow> nat" where
  "scan_gt I data pivot b c =
     (if b < c \<and> Less I data pivot (c - 1) then scan_gt I data pivot b (c - 1) else c)"
  by pat_completeness auto
termination
  by (relation "measure (\<lambda>(I, data, pivot, b, c). c - b)") auto

declare scan_gt.simps [simp del]

lemma scan_le_ge: "b \<le> scan_le I data pivot b c"
  by (induction I data pivot b c rule: scan_le.induct) (subst scan_le.simps, auto)

lemma scan_le_le: "b \<le> c \<Longrightarrow> scan_le I data pivot b c \<le> c"
  by (induction I data pivot b c rule: scan_le.induct) (subst scan_le.simps, auto)

lemma scan_gt_le: "scan_gt I data pivot b c \<le> c"
  by (induction I data pivot b c rule: scan_gt.induct) (subst scan_gt.simps, auto)

lemma scan_gt_ge: "b \<le> c \<Longrightarrow> b \<le> scan_gt I data pivot b c"
  by (induction I data pivot b c rule: scan_gt.induct) (subst scan_gt.simps, auto)

function partition_loop :: "'d Interface \<Rightarrow> 'd \<Rightarrow> nat \<Rightarrow> nat \<Rightarrow> nat \<Rightarrow> 'd \<times> nat \<times> nat" where
  "partition_loop I data pivot b c =
     (let b = scan_le I data pivot b c;
          c = scan_gt I data pivot b c
      in if b \<ge> c then (data, b, c)
         else partition_loop I (Swap I data b (c - 1)) pivot (b + 1) (c - 1))"
  by pat_completeness auto
termination
proof (relation "measure (\<lambda>(I, data, pivot, b, c). c - b)", goal_cases)
  case 1
  show ?case by simp
next
  case (2 I data pivot b c x xa)
  have "b \<le> x" using 2(1) by (simp add: scan_le_ge)
  moreover have "xa \<le> c" using 2(2) by (simp add: scan_gt_le)
  ultimately show ?case using 2(3) by auto
qed

declare partition_loop.simps [simp del]


function dup_scan_down :: "'d Interface \<Rightarrow> 'd \<Rightarrow> nat \<Rightarrow> nat \<Rightarrow> nat \<Rightarrow> nat" where
  "dup_scan_down I data pivot a b =
     (if a < b \<and> \<not> Less I data (b - 1) pivot then dup_scan_down I data pivot a (b - 1) else b)"
  by pat_completeness auto
termination
  by (relation "measure (\<lambda>(I, data, pivot, a, b). b - a)") auto

declare dup_scan_down.simps [simp del]

lemma dup_scan_down_le: "dup_scan_down I data pivot a b \<le> b"
  by (induction I data pivot a b rule: dup_scan_down.induct)
     (subst dup_scan_down.simps, auto)

lemma scan_lt_ge: "a \<le> scan_lt I data pivot a c"
  by (induction I data pivot a c rule: scan_lt.induct)
     (subst scan_lt.simps, auto)

function protect_loop :: "'d Interface \<Rightarrow> 'd \<Rightarrow> nat \<Rightarrow> nat \<Rightarrow> nat \<Rightarrow> 'd \<times> nat" where
  "protect_loop I data pivot a b =
     (let b = dup_scan_down I data pivot a b;
          a = scan_lt I data pivot a b
      in if a \<ge> b then (data, b)
         else protect_loop I (Swap I data a (b - 1)) pivot (a + 1) (b - 1))"
  by pat_completeness auto
termination
proof (relation "measure (\<lambda>(I, data, pivot, a, b). b - a)", goal_cases)
  case 1
  show ?case by simp
next
  case (2 I data pivot a b x xa)
  have "x \<le> b" using 2(1) by (simp add: dup_scan_down_le)
  moreover have "a \<le> xa" using 2(2) by (simp add: scan_lt_ge)
  ultimately show ?case using 2(3) by auto
qed

declare protect_loop.simps [simp del]

definition doPivot :: "'d Interface \<Rightarrow> 'd \<Rightarrow> nat \<Rightarrow> nat \<Rightarrow> 'd \<times> nat \<times> nat" where
  "doPivot I data lo hi =
     (let m = lo + (hi - lo) div 2;
          data = (if hi - lo > 40
                  then (let s = (hi - lo) div 8;
                            data = medianOfThree I data lo (lo + s) (lo + 2 * s);
                            data = medianOfThree I data m (m - s) (m + s)
                        in medianOfThree I data (hi - 1) (hi - 1 - s) (hi - 1 - 2 * s))
                  else data);
          data = medianOfThree I data lo m (hi - 1);
          pivot = lo;
          a = scan_lt I data pivot (lo + 1) (hi - 1);
          (data, b, c) = partition_loop I data pivot a (hi - 1);
          protect = (hi - c < 5);
          (data, b, c, protect) =
             (if \<not> protect \<and> hi - c < (hi - lo) div 4
              then (let (data, c, dups) =
                          (if \<not> Less I data pivot (hi - 1)
                           then (Swap I data c (hi - 1), c + 1, 1::nat) else (data, c, 0));
                        (b, dups) =
                          (if \<not> Less I data (b - 1) pivot then (b - 1, dups + 1) else (b, dups));
                        (data, b, dups) =
                          (if \<not> Less I data m pivot
                           then (Swap I data m (b - 1), b - 1, dups + 1) else (data, b, dups))
                    in (data, b, c, dups > 1))
              else (data, b, c, protect));
          (data, b) = (if protect then protect_loop I data pivot a b else (data, b));
          data = Swap I data pivot (b - 1)
      in (data, b - 1, c))"

function shellPass :: "'d Interface \<Rightarrow> 'd \<Rightarrow> nat \<Rightarrow> nat \<Rightarrow> 'd" where
  "shellPass I data b i =
     (if i < b
      then shellPass I (if Less I data i (i - 6) then Swap I data i (i - 6) else data) b (i + 1)
      else data)"
  by pat_completeness auto
termination
  by (relation "measure (\<lambda>(I, data, b, i). b - i)") auto

declare shellPass.simps [simp del]

function quickSort :: "'d Interface \<Rightarrow> 'd \<Rightarrow> nat \<Rightarrow> nat \<Rightarrow> nat \<Rightarrow> 'd" where
  "quickSort I data a b maxDepth =
     (if b - a > 12 then
        (if maxDepth = 0 then heapSort I data a b
         else (case doPivot I data a b of (data', mlo, mhi) \<Rightarrow>
                 if int mlo - int a < int b - int mhi
                 then quickSort I (quickSort I data' a mlo (maxDepth - 1)) mhi b (maxDepth - 1)
                 else quickSort I (quickSort I data' mhi b (maxDepth - 1)) a mlo (maxDepth - 1)))
      else if b - a > 1 then insertionSort I (shellPass I data b (a + 6)) a b
      else data)"
  by pat_completeness auto
termination
  by (relation "measure (\<lambda>(I, data, a, b, maxDepth). maxDepth)") auto

declare quickSort.simps [simp del]

function maxDepth_loop :: "nat \<Rightarrow> nat \<Rightarrow> nat" where
  "maxDepth_loop i depth = (if i > 0 then maxDepth_loop (i div 2) (depth + 1) else depth)"
  by pat_completeness auto
termination
  by (relation "measure (\<lambda>(i, depth). i)") auto

declare maxDepth_loop.simps [simp del]

definition maxDepth :: "nat \<Rightarrow> nat" where
  "maxDepth n = maxDepth_loop n 0 * 2"

definition Sort :: "'d Interface \<Rightarrow> 'd \<Rightarrow> 'd" where
  "Sort I data = (let n = Len I data in quickSort I data 0 n (maxDepth n))"

section \<open>The target system and a run of the program\<close>

text \<open>
  The calls the migrator sends to the target system through the SDK's controllers.
\<close>

datatype call =
    CreateVLAN VLAN
  | GetVLANsByNumber go_int
  | GetSubnetsByCIDR string
  | CreateSubnet Subnet
  | CreateAddress Address

text \<open>
  The target system is outside the program. It answers each call, and the answer may
  depend on every call it has received before (a lookup sees the records created earlier):
  each controller method is a function of the calls so far and the argument. An answer
  is \<open>Inl\<close> of the error's text (what \<open>err.Error()\<close> gives) or \<open>Inr\<close> of the result.
\<close>

record target =
  onCreateVLAN :: "call list \<Rightarrow> VLAN \<Rightarrow> string + string"
  onGetVLANsByNumber :: "call list \<Rightarrow> go_int \<Rightarrow> string + VLAN list"
  onGetSubnetsByCIDR :: "call list \<Rightarrow> string \<Rightarrow> string + Subnet list"
  onCreateSubnet :: "call list \<Rightarrow> Subnet \<Rightarrow> string + string"
  onCreateAddress :: "call list \<Rightarrow> Address \<Rightarrow> string + string"

text \<open>
  How a part of the program ends: it returns, it stops the process through
  \<open>logrus.Fatalf\<close>, or it panics on an index out of range. Every function that talks to
  the target system takes the calls made so far and gives them back extended.
\<close>

datatype 'a outcome = Return 'a | Fatal | Panic

type_synonym 'a run = "'a outcome \<times> call list"

definition and_then :: "'a run \<Rightarrow> ('a \<Rightarrow> call list \<Rightarrow> 'b run) \<Rightarrow> 'b run" where
  "and_then r f = (case r of
       (Return x, h) \<Rightarrow> f x h
     | (Fatal, h) \<Rightarrow> (Fatal, h)
     | (Panic, h) \<Rightarrow> (Panic, h))"

section \<open>Package \<open>helper\<close>: the parent resolver\<close>

text \<open>
  The loop of \<open>ParentSubnetIDForCIDR\<close> with its counter \<open>n\<close>. A CIDR that does not
  parse is fatal before any lookup; a lookup without error reads \<open>subnets[0]\<close>; the
  not-found text of the API moves to the next smaller \<open>n\<close>; any other error is fatal.
\<close>

function ParentSubnetIDForCIDR_loop ::
  "target \<Rightarrow> string \<Rightarrow> go_int \<Rightarrow> call list \<Rightarrow> go_int run" where
  "ParentSubnetIDForCIDR_loop t addr n h =
     (if 8 \<le>s n then
        (case ParseCIDR (Sprintf_s_d addr n) of
           None \<Rightarrow> (Fatal, h)
         | Some (ip, net) \<Rightarrow>
             (let h' = h @ [GetSubnetsByCIDR (IPNet_String net)]
              in case onGetSubnetsByCIDR t h (IPNet_String net) of
                   Inr subnets \<Rightarrow>
                     (case subnets of
                        [] \<Rightarrow> (Panic, h')
                      | s # _ \<Rightarrow> (Return (ID s), h'))
                 | Inl err \<Rightarrow>
                     if err = ''Error from API (404): No subnets found''
                     then ParentSubnetIDForCIDR_loop t addr (n - 1) h'
                     else (Fatal, h')))
      else (Return 0, h))"
  by pat_completeness auto
termination
proof (relation "measure (\<lambda>(t, addr, n, h). nat (sint n - 7))", goal_cases)
  case 1
  show ?case by simp
next
  case (2 t addr n h x2 x y xa a)
  have ge: "8 \<le> sint n" using 2(1) by (simp add: word_sle_eq)
  have "sint n < 2 ^ 63" using sint_lt [of n] by simp
  then have "signed_take_bit 63 (sint n - 1) = sint n - 1"
    using ge by (intro signed_take_bit_int_eq_self) auto
  then have "sint (n - 1) = sint n - 1"
    by (simp add: sint_word_diff)
  then show ?case using ge by simp
qed

declare ParentSubnetIDForCIDR_loop.simps [simp del]

definition ParentSubnetIDForCIDR :: "target \<Rightarrow> string \<Rightarrow> go_int \<Rightarrow> call list \<Rightarrow> go_int run" where
  "ParentSubnetIDForCIDR t addr msk h = ParentSubnetIDForCIDR_loop t addr (msk - 1) h"

section \<open>Package \<open>main\<close>\<close>

subsection \<open>Lookups of identifiers\<close>

definition vlanIDForNumber :: "target \<Rightarrow> go_int \<Rightarrow> call list \<Rightarrow> go_int run" where
  "vlanIDForNumber t n h =
     (let h' = h @ [GetVLANsByNumber n]
      in case onGetVLANsByNumber t h n of
           Inl err \<Rightarrow> (Fatal, h')
         | Inr vlans \<Rightarrow>
             (case vlans of
                [] \<Rightarrow> (Panic, h')
              | v # _ \<Rightarrow> (Return (VLAN_ID v), h')))"

definition subnetIDForCIDR :: "target \<Rightarrow> string \<Rightarrow> call list \<Rightarrow> go_int run" where
  "subnetIDForCIDR t cidr h =
     (let h' = h @ [GetSubnetsByCIDR cidr]
      in case onGetSubnetsByCIDR t h cidr of
           Inl err \<Rightarrow> (Fatal, h')
         | Inr subnets \<Rightarrow>
             (case subnets of
                [] \<Rightarrow> (Panic, h')
              | s # _ \<Rightarrow> (Return (ID s), h')))"

subsection \<open>The legacy database\<close>

text \<open>
  What the three queries of the program give: the query fails (\<open>runSQL\<close> is fatal), or it
  gives rows, each of which \<open>Scan\<close> reads or rejects, and the error state \<open>rows.Err()\<close>
  has after the last row. A connection that cannot be opened is \<open>None\<close>.
\<close>

datatype 'r scan = ScanError | Scanned 'r

datatype 'r query = QueryError | Rows "'r scan list" bool

record NullInt64 =
  Int64 :: go_int
  Valid :: bool

type_synonym vlan_row = "string \<times> go_int \<times> string"
type_synonym subnet_row = "string \<times> go_int \<times> string \<times> NullInt64"
type_synonym address_row = "string \<times> string \<times> string \<times> string \<times> string \<times> go_int"

record legacy_db =
  vlans_query :: "vlan_row query"
  subnets_query :: "subnet_row query"
  addresses_query :: "address_row query"

subsection \<open>Reading the records\<close>

fun fetchVLANs_rows :: "vlan_row scan list \<Rightarrow> VLAN list \<Rightarrow> VLAN list outcome" where
  "fetchVLANs_rows [] out = Return out"
| "fetchVLANs_rows (ScanError # rest) out = Fatal"
| "fetchVLANs_rows (Scanned (name, number, description) # rest) out =
     fetchVLANs_rows rest
       (out @ [\<lparr>VLAN_ID = 0, VLAN_Name = name, VLAN_Number = number,
                 VLAN_Description = description\<rparr>])"

definition fetchVLANs :: "legacy_db \<Rightarrow> call list \<Rightarrow> VLAN list run" where
  "fetchVLANs conn h =
     (case vlans_query conn of
        QueryError \<Rightarrow> (Fatal, h)
      | Rows rows err \<Rightarrow>
          (case fetchVLANs_rows rows [] of
             Return out \<Rightarrow> if err then (Fatal, h) else (Return out, h)
           | Fatal \<Rightarrow> (Fatal, h)
           | Panic \<Rightarrow> (Panic, h)))"

text \<open>
  The row loop of \<open>fetchSubnets\<close>. A row whose address \<open>decimalIPAddrToString\<close> rejects
  is passed over (\<open>continue\<close>); a VLAN number other than 0 is looked up in the target
  system while the rows are read.
\<close>

fun fetchSubnets_rows ::
  "target \<Rightarrow> go_int \<Rightarrow> subnet_row scan list \<Rightarrow> Subnet list \<Rightarrow> call list \<Rightarrow> Subnet list run" where
  "fetchSubnets_rows t sectionID [] out h = (Return out, h)"
| "fetchSubnets_rows t sectionID (ScanError # rest) out h = (Fatal, h)"
| "fetchSubnets_rows t sectionID (Scanned (addr, msk, description, vlanNumber) # rest) out h =
     (case decimalIPAddrToString addr of
        Inl err \<Rightarrow> fetchSubnets_rows t sectionID rest out h
      | Inr strAddr \<Rightarrow>
          and_then
            (if Int64 vlanNumber \<noteq> 0 then vlanIDForNumber t (Int64 vlanNumber) h
             else (Return 0, h))
            (\<lambda>vlanID h'.
               fetchSubnets_rows t sectionID rest
                 (out @ [Subnet_zero\<lparr>SubnetAddress := strAddr, Mask := msk,
                           Description := description, VLANID := vlanID,
                           SectionID := sectionID\<rparr>]) h'))"

definition fetchSubnets :: "target \<Rightarrow> go_int \<Rightarrow> legacy_db \<Rightarrow> call list \<Rightarrow> Subnet list run" where
  "fetchSubnets t sectionID conn h =
     (case subnets_query conn of
        QueryError \<Rightarrow> (Fatal, h)
      | Rows rows err \<Rightarrow>
          and_then (fetchSubnets_rows t sectionID rows [] h)
            (\<lambda>out h'. if err then (Fatal, h') else (Return out, h')))"

text \<open>
  The row loop of \<open>fetchAddresses\<close>: a row is passed over when its address or the
  address of its subnet is rejected; otherwise the subnet is looked up by its CIDR.
\<close>

fun fetchAddresses_rows ::
  "target \<Rightarrow> address_row scan list \<Rightarrow> Address list \<Rightarrow> call list \<Rightarrow> Address list run" where
  "fetchAddresses_rows t [] out h = (Return out, h)"
| "fetchAddresses_rows t (ScanError # rest) out h = (Fatal, h)"
| "fetchAddresses_rows t (Scanned (ipAddr, description, dnsName, note, subnetAddr, subnetMask) # rest) out h =
     (case decimalIPAddrToString ipAddr of
        Inl err \<Rightarrow> fetchAddresses_rows t rest out h
      | Inr ipString \<Rightarrow>
          (case decimalIPAddrToString subnetAddr of
             Inl err \<Rightarrow> fetchAddresses_rows t rest out h
           | Inr subnetString \<Rightarrow>
               and_then (subnetIDForCIDR t (Sprintf_s_d subnetString subnetMask) h)
                 (\<lambda>subnetID h'.
                    fetchAddresses_rows t rest
                      (out @ [\<lparr>Address_SubnetID = subnetID, Address_IPAddress = ipString,
                                Address_Description = description, Address_Hostname = dnsName,
                                Address_Note = note\<rparr>]) h')))"

definition fetchAddresses :: "target \<Rightarrow> legacy_db \<Rightarrow> call list \<Rightarrow> Address list run" where
  "fetchAddresses t conn h =
     (case addresses_query conn of
        QueryError \<Rightarrow> (Fatal, h)
      | Rows rows err \<Rightarrow>
          and_then (fetchAddresses_rows t rows [] h)
            (\<lambda>out h'. if err then (Fatal, h') else (Return out, h')))"

subsection \<open>Writing the records\<close>

fun addVLANs :: "target \<Rightarrow> VLAN list \<Rightarrow> call list \<Rightarrow> unit run" where
  "addVLANs t [] h = (Return (), h)"
| "addVLANs t (v # lans) h =
     (case onCreateVLAN t h v of
        Inl err \<Rightarrow> (Fatal, h @ [CreateVLAN v])
      | Inr message \<Rightarrow> addVLANs t lans (h @ [CreateVLAN v]))"

text \<open>
  The loop of \<open>addSubnets\<close> over the sorted records: the loop variable is a copy of the
  record, which gets the parent's identifier when the resolver returns one other than 0.
\<close>

fun addSubnets_loop :: "target \<Rightarrow> Subnet list \<Rightarrow> call list \<Rightarrow> unit run" where
  "addSubnets_loop t [] h = (Return (), h)"
| "addSubnets_loop t (v # data) h =
     and_then (ParentSubnetIDForCIDR t (SubnetAddress v) (Mask v) h)
       (\<lambda>id h'.
          let v' = (if id \<noteq> 0 then v\<lparr>MasterSubnetID := id\<rparr> else v)
          in case onCreateSubnet t h' v' of
               Inl err \<Rightarrow> (Fatal, h' @ [CreateSubnet v'])
             | Inr message \<Rightarrow> addSubnets_loop t data (h' @ [CreateSubnet v']))"

definition addSubnets :: "target \<Rightarrow> Subnet list \<Rightarrow> call list \<Rightarrow> unit run" where
  "addSubnets t nets h = addSubnets_loop t (Sort SubnetsSorter nets) h"

fun addAddresses :: "target \<Rightarrow> Address list \<Rightarrow> call list \<Rightarrow> unit run" where
  "addAddresses t [] h = (Return (), h)"
| "addAddresses t (v # addrs) h =
     (case onCreateAddress t h v of
        Inl err \<Rightarrow> (Fatal, h @ [CreateAddress v])
      | Inr message \<Rightarrow> addAddresses t addrs (h @ [CreateAddress v]))"

subsection \<open>The program\<close>

text \<open>
  \<open>main\<close>: the session \<open>t\<close> and the section identifier come from the command line;
  \<open>connectDB\<close> is fatal when the database cannot be reached. Go evaluates the argument
  of each \<open>add\<close> function, the matching \<open>fetch\<close>, before the call.
\<close>

definition main :: "target \<Rightarrow> go_int \<Rightarrow> legacy_db option \<Rightarrow> unit run" where
  "main t sectionID db =
     (case db of
        None \<Rightarrow> (Fatal, [])
      | Some conn \<Rightarrow>
          and_then (fetchVLANs conn []) (\<lambda>lans h1.
          and_then (addVLANs t lans h1) (\<lambda>_ h2.
          and_then (fetchSubnets t sectionID conn h2) (\<lambda>nets h3.
          and_then (addSubnets t nets h3) (\<lambda>_ h4.
          and_then (fetchAddresses t conn h4) (\<lambda>addrs h5.
          addAddresses t addrs h5))))))"

section \<open>Notions of the specification\<close>

text \<open>
  The value of a decimal numeral, read digit by digit, and the decimal strings that
  denote an unsigned 32-bit integer: not empty, digits only, value below \<open>2^32\<close>.
\<close>

definition decimal_value_from :: "nat \<Rightarrow> string \<Rightarrow> nat" where
  "decimal_value_from n s = foldl (\<lambda>a c. 10 * a + digitVal c) n s"

definition decimal_value :: "string \<Rightarrow> nat" where
  "decimal_value s = decimal_value_from 0 s"

definition valid_uint32_decimal :: "string \<Rightarrow> bool" where
  "valid_uint32_decimal d = (d \<noteq> [] \<and> list_all isDigit d \<and> decimal_value d < 2 ^ 32)"

text \<open>Where a decimal field ends: at the end of the text or before a byte that is no digit.\<close>

definition text_end :: "string \<Rightarrow> bool" where
  "text_end r = (case r of [] \<Rightarrow> True | c # _ \<Rightarrow> \<not> isDigit c)"

text \<open>
  The dotted quad of a 32-bit value: its four octets, most significant first, in decimal
  and joined by dots. Encoding a dotted quad back reads it with the library's own parser
  and takes the big-endian 32-bit value of the four octets.
\<close>

definition dotted_quad :: "nat \<Rightarrow> string" where
  "dotted_quad v =
     uitoa (v div 2 ^ 24 mod 256) @ ''.'' @ uitoa (v div 2 ^ 16 mod 256) @ ''.'' @
     uitoa (v div 2 ^ 8 mod 256) @ ''.'' @ uitoa (v mod 256)"

definition encode_quad :: "string \<Rightarrow> nat option" where
  "encode_quad q = map_option (\<lambda>ip. unat (Uint32 ip)) (parseIPv4 q)"

text \<open>
  The not-found answer of the API, and the CIDR text of the block of prefix length \<open>k\<close>
  around an address: the network number under the mask, a slash, the length.
\<close>

definition NotFound :: string where
  "NotFound = ''Error from API (404): No subnets found''"

definition probe_cidr :: "IPv4 \<Rightarrow> nat \<Rightarrow> string" where
  "probe_cidr ip k = IPNet_String (IP_Mask ip (CIDRMask k), k)"

text \<open>A target system whose lookups, when they succeed, never give an empty list.\<close>

definition nonempty_results :: "target \<Rightarrow> bool" where
  "nonempty_results t \<longleftrightarrow>
     (\<forall>h c. onGetSubnetsByCIDR t h c \<noteq> Inr []) \<and> (\<forall>h n. onGetVLANsByNumber t h n \<noteq> Inr [])"

text \<open>
  The bits of an address, first bit first. A block \<open>net/k\<close> contains an address when
  \<open>net\<close> is a prefix of \<open>k\<close> bits (nothing is set after them) and the first \<open>k\<close> bits
  of the address are those of \<open>net\<close>. A registered record is such a block when its
  address is the dotted quad of \<open>net\<close> and its mask is \<open>k\<close>.
\<close>

definition byte_bits :: "byte \<Rightarrow> bool list" where
  "byte_bits w = map (bit w) [7, 6, 5, 4, 3, 2, 1, 0]"

definition ip_bits :: "IPv4 \<Rightarrow> bool list" where
  "ip_bits ip = (case ip of (a, b, c, d) \<Rightarrow> byte_bits a @ byte_bits b @ byte_bits c @ byte_bits d)"

definition in_prefix :: "IPv4 \<Rightarrow> nat \<Rightarrow> IPv4 \<Rightarrow> bool" where
  "in_prefix net k a \<longleftrightarrow>
     k \<le> 32 \<and> take k (ip_bits a) = take k (ip_bits net) \<and>
     drop k (ip_bits net) = replicate (32 - k) False"

definition block_contains :: "Subnet \<Rightarrow> IPv4 \<Rightarrow> bool" where
  "block_contains b a \<longleftrightarrow>
     (\<exists>net k. SubnetAddress b = IP_String net \<and> sint (Mask b) = int k \<and> in_prefix net k a)"

subsection \<open>A target system\<close>

text \<open>
  Modelled from the spec: the target system is not part of the repository; the
  specification (section 6) asks of it a lookup of subnets by exact CIDR and a lookup
  of VLANs by number, each with a not-found answer of its own, and the three creations.
  The model keeps the records created, gives each the next identifier, and answers a
  lookup with the records whose CIDR text (or number) is the one asked for, or with the
  not-found error of the API.
\<close>

definition registry_lookup :: "Subnet list \<Rightarrow> string \<Rightarrow> string + Subnet list" where
  "registry_lookup reg cidr =
     (let found = filter (\<lambda>b. Sprintf_s_d (SubnetAddress b) (Mask b) = cidr) reg
      in if found = [] then Inl NotFound else Inr found)"

definition vlan_lookup :: "VLAN list \<Rightarrow> go_int \<Rightarrow> string + VLAN list" where
  "vlan_lookup vs n =
     (let found = filter (\<lambda>v. VLAN_Number v = n) vs
      in if found = [] then Inl ''Error from API (404): No vlans found'' else Inr found)"

fun register :: "VLAN list \<times> Subnet list \<Rightarrow> call \<Rightarrow> VLAN list \<times> Subnet list" where
  "register (vs, ss) (CreateVLAN v) = (vs @ [v\<lparr>VLAN_ID := word_of_nat (length vs) + 1\<rparr>], ss)"
| "register (vs, ss) (CreateSubnet s) = (vs, ss @ [s\<lparr>ID := word_of_nat (length ss) + 1\<rparr>])"
| "register (vs, ss) (CreateAddress a) = (vs, ss)"
| "register (vs, ss) (GetVLANsByNumber n) = (vs, ss)"
| "register (vs, ss) (GetSubnetsByCIDR c) = (vs, ss)"

definition inventory_state :: "Subnet list \<Rightarrow> call list \<Rightarrow> VLAN list \<times> Subnet list" where
  "inventory_state reg0 h = foldl register ([], reg0) h"

definition inventory :: "Subnet list \<Rightarrow> target" where
  "inventory reg0 =
     \<lparr>onCreateVLAN = (\<lambda>h v. Inr []),
      onGetVLANsByNumber = (\<lambda>h n. vlan_lookup (fst (inventory_state reg0 h)) n),
      onGetSubnetsByCIDR = (\<lambda>h c. registry_lookup (snd (inventory_state reg0 h)) c),
      onCreateSubnet = (\<lambda>h s. Inr []),
      onCreateAddress = (\<lambda>h a. Inr [])\<rparr>"

fun is_lookup :: "call \<Rightarrow> bool" where
  "is_lookup (GetVLANsByNumber n) = True"
| "is_lookup (GetSubnetsByCIDR c) = True"
| "is_lookup (CreateVLAN v) = False"
| "is_lookup (CreateSubnet s) = False"
| "is_lookup (CreateAddress a) = False"

text \<open>A registered block as a record, and a small legacy database, for worked examples.\<close>

definition registered :: "go_int \<Rightarrow> string \<Rightarrow> go_int \<Rightarrow> Subnet" where
  "registered i addr m = Subnet_zero\<lparr>ID := i, SubnetAddress := addr, Mask := m\<rparr>"

definition example_db :: legacy_db where
  "example_db =
     \<lparr>vlans_query = Rows [Scanned (''lab'', 7, ''lab network'')] False,
      subnets_query = Rows
        [Scanned (''168428032'', 24, ''lab hosts'', \<lparr>Int64 = 7, Valid = True\<rparr>),
         Scanned (''42540766411282592856903984951653826561'', 64, ''v6'', \<lparr>Int64 = 0, Valid = False\<rparr>),
         Scanned (''167772160'', 8, ''site'', \<lparr>Int64 = 0, Valid = False\<rparr>),
         Scanned (''168427520'', 16, ''campus'', \<lparr>Int64 = 0, Valid = False\<rparr>)] False,
      addresses_query = Rows
        [Scanned (''168428037'', ''printer'', ''prn1'', '''', ''168428032'', 24)] False\<rparr>"

subsection \<open>Traces and phases\<close>


fun subnet_phase :: "call \<Rightarrow> bool" where
  "subnet_phase (CreateVLAN v) = False"
| "subnet_phase (GetVLANsByNumber n) = True"
| "subnet_phase (GetSubnetsByCIDR c) = True"
| "subnet_phase (CreateSubnet s) = True"
| "subnet_phase (CreateAddress a) = False"


text \<open>
  A run started with the calls \<open>h\<close> already made adds calls of one kind only, or calls
  of a first kind followed by calls of a second.
\<close>

definition adds :: "(call \<Rightarrow> bool) \<Rightarrow> call list \<Rightarrow> 'a run \<Rightarrow> bool" where
  "adds P h r \<longleftrightarrow> (\<exists>xs. snd r = h @ xs \<and> list_all P xs)"

definition adds2 :: "(call \<Rightarrow> bool) \<Rightarrow> (call \<Rightarrow> bool) \<Rightarrow> call list \<Rightarrow> 'a run \<Rightarrow> bool" where
  "adds2 P Q h r \<longleftrightarrow> (\<exists>xs ys. snd r = h @ xs @ ys \<and> list_all P xs \<and> list_all Q ys)"

text \<open>
  The records a trace creates as subnets. A creation \<open>c\<close> in the trace \<open>tr\<close> is the
  resolved creation of the record \<open>v\<close> when, somewhere after the calls \<open>h\<close>, the resolver
  ran for \<open>v\<close>, returned \<open>i\<close>, and the next call was the creation of \<open>v\<close>, with the parent
  \<open>i\<close> when \<open>i\<close> is not 0. Two records are the same but for the parent when they agree
  on every field other than \<open>MasterSubnetID\<close>.
\<close>

fun subnet_creations :: "call list \<Rightarrow> Subnet list" where
  "subnet_creations [] = []"
| "subnet_creations (CreateSubnet s # cs) = s # subnet_creations cs"
| "subnet_creations (CreateVLAN v # cs) = subnet_creations cs"
| "subnet_creations (GetVLANsByNumber n # cs) = subnet_creations cs"
| "subnet_creations (GetSubnetsByCIDR c # cs) = subnet_creations cs"
| "subnet_creations (CreateAddress a # cs) = subnet_creations cs"

definition resolved_create :: "target \<Rightarrow> call list \<Rightarrow> call list \<Rightarrow> Subnet \<Rightarrow> Subnet \<Rightarrow> bool" where
  "resolved_create t h tr c v \<longleftrightarrow>
     (\<exists>pre h2 i rest.
        ParentSubnetIDForCIDR t (SubnetAddress v) (Mask v) (h @ pre) = (Return i, h2) \<and>
        tr = h2 @ CreateSubnet c # rest \<and>
        c = (if i \<noteq> 0 then v\<lparr>MasterSubnetID := i\<rparr> else v))"

definition same_but_parent :: "Subnet \<Rightarrow> Subnet \<Rightarrow> bool" where
  "same_but_parent c v \<longleftrightarrow>
     SubnetAddress c = SubnetAddress v \<and> Mask c = Mask v \<and> Description c = Description v \<and>
     VLANID c = VLANID v \<and> SectionID c = SectionID v \<and>
     c\<lparr>MasterSubnetID := MasterSubnetID v\<rparr> = v"



definition example_vlan :: VLAN where
  "example_vlan = \<lparr>VLAN_ID = 0, VLAN_Name = ''lab'', VLAN_Number = 7,
                    VLAN_Description = ''lab network''\<rparr>"

definition example_subnets :: "Subnet list" where
  "example_subnets =
     [Subnet_zero\<lparr>SubnetAddress := ''10.10.2.0'', Mask := 24, Description := ''lab hosts'',
                   VLANID := 1, SectionID := 1\<rparr>,
      Subnet_zero\<lparr>SubnetAddress := ''10.0.0.0'', Mask := 8, Description := ''site'',
                   VLANID := 0, SectionID := 1\<rparr>,
      Subnet_zero\<lparr>SubnetAddress := ''10.10.0.0'', Mask := 16, Description := ''campus'',
                   VLANID := 0, SectionID := 1\<rparr>]"

subsection \<open>Orders on text and lists of records\<close>

text \<open>The byte-wise lexicographic order on text, the text \<open>address/mask\<close> of a record, a
  record that has an address, a mask and a description and is zero elsewhere, the two lists of
  \<open>TestSubnetsSorter\<close>, and the records of one block.\<close>

definition bytewise_less :: "string \<Rightarrow> string \<Rightarrow> bool" where
  "bytewise_less a b \<longleftrightarrow> (a, b) \<in> lexord {(c, d). (of_char c :: nat) < of_char d}"

definition cidr_text :: "Subnet \<Rightarrow> string" where
  "cidr_text v = SubnetAddress v @ ''/'' @ Itoa (sint (Mask v))"

definition subnet_of :: "string \<Rightarrow> go_int \<Rightarrow> string \<Rightarrow> Subnet" where
  "subnet_of addr m descr = Subnet_zero\<lparr>SubnetAddress := addr, Mask := m, Description := descr\<rparr>"

definition test_input :: "Subnet list" where
  "test_input =
     [subnet_of ''10.10.3.0'' 24 [], subnet_of ''10.10.1.0'' 24 [], subnet_of ''10.0.0.0'' 8 [],
      subnet_of ''172.16.1.0'' 24 [], subnet_of ''10.10.4.0'' 24 [], subnet_of ''172.16.0.0'' 12 []]"

definition test_expected :: "Subnet list" where
  "test_expected =
     [subnet_of ''10.0.0.0'' 8 [], subnet_of ''10.10.1.0'' 24 [], subnet_of ''10.10.3.0'' 24 [],
      subnet_of ''10.10.4.0'' 24 [], subnet_of ''172.16.0.0'' 12 [], subnet_of ''172.16.1.0'' 24 []]"

definition unstable_input :: "Subnet list" where
  "unstable_input =
     [subnet_of ''10.9.0.0'' 24 ''first'', subnet_of ''10.9.0.0'' 24 ''second'',
      subnet_of ''10.0.1.0'' 24 [], subnet_of ''10.0.2.0'' 24 [], subnet_of ''10.0.3.0'' 24 [],
      subnet_of ''10.0.4.0'' 24 [], subnet_of ''10.0.5.0'' 24 [], subnet_of ''10.0.6.0'' 24 [],
      subnet_of ''10.0.7.0'' 24 [], subnet_of ''10.0.8.0'' 24 [], subnet_of ''10.0.9.0'' 24 [],
      subnet_of ''10.1.0.0'' 24 [], subnet_of ''10.2.0.0'' 24 []]"

definition seven_input :: "Subnet list" where
  "seven_input =
     [subnet_of ''10.0.0.2'' 24 ''first'', subnet_of ''10.0.0.2'' 24 ''second'',
      subnet_of ''10.0.0.3'' 24 [], subnet_of ''10.0.0.4'' 24 [], subnet_of ''10.0.0.5'' 24 [],
      subnet_of ''10.0.0.6'' 24 [], subnet_of ''10.0.0.1'' 24 []]"

definition same_block :: "string \<Rightarrow> go_int \<Rightarrow> Subnet \<Rightarrow> bool" where
  "same_block a m v \<longleftrightarrow> SubnetAddress v = a \<and> Mask v = m"

section \<open>Decimal text and dotted quads\<close>

lemma decimal_value_from_Nil [simp]: "decimal_value_from n [] = n"
  by (simp add: decimal_value_from_def)

lemma decimal_value_from_Cons [simp]:
  "decimal_value_from n (c # cs) = decimal_value_from (10 * n + digitVal c) cs"
  by (simp add: decimal_value_from_def)

lemma decimal_value_from_snoc [simp]:
  "decimal_value_from n (cs @ [c]) = 10 * decimal_value_from n cs + digitVal c"
  by (simp add: decimal_value_from_def)

lemma decimal_value_from_ge: "n \<le> decimal_value_from n cs"
proof (induction cs arbitrary: n)
  case Nil
  show ?case by simp
next
  case (Cons c cs)
  have "n \<le> 10 * n + digitVal c" by simp
  also have "\<dots> \<le> decimal_value_from (10 * n + digitVal c) cs" by (rule Cons.IH)
  finally show ?case by simp
qed

lemma digitVal_digitChar: "d < 10 \<Longrightarrow> digitVal (digitChar d) = d"
  by (simp add: digitVal_def digitChar_def)

lemma isDigit_digitChar: "d < 10 \<Longrightarrow> isDigit (digitChar d)"
  by (simp add: isDigit_def digitChar_def)

lemma digitVal_less: "isDigit c \<Longrightarrow> digitVal c < 10"
  by (auto simp: isDigit_def digitVal_def)

lemma uitoa_digits: "list_all isDigit (uitoa n)"
  by (induction n rule: uitoa.induct) (subst uitoa.simps, simp add: isDigit_digitChar)

lemma uitoa_not_Nil: "uitoa n \<noteq> []"
  by (subst uitoa.simps) simp

lemma decimal_value_uitoa: "decimal_value (uitoa n) = n"
proof (induction n rule: uitoa.induct)
  case (1 n)
  show ?case
  proof (cases "n < 10")
    case True
    then show ?thesis
      by (subst uitoa.simps) (simp add: decimal_value_def digitVal_digitChar)
  next
    case False
    with 1 have "decimal_value (uitoa (n div 10)) = n div 10" by simp
    with False show ?thesis
      by (subst uitoa.simps) (simp add: decimal_value_def digitVal_digitChar)
  qed
qed

lemma ParseUint_loop_Inr:
  "n \<le> M \<Longrightarrow> M < 2 ^ 32 \<Longrightarrow>
   ParseUint_loop M n cs = Inr v \<longleftrightarrow>
     list_all isDigit cs \<and> v = decimal_value_from n cs \<and> v \<le> M"
proof (induction cs arbitrary: n)
  case Nil
  then show ?case by auto
next
  case (Cons c cs)
  show ?case
  proof (cases "isDigit c")
    case False
    then show ?thesis by simp
  next
    case True
    let ?n1 = "10 * n + digitVal c"
    have d: "digitVal c < 10" using True by (rule digitVal_less)
    have small: "n < 2 ^ 32" using Cons.prems by simp
    have nowrap: "(n * 10) mod 2 ^ 64 = n * 10" "(n * 10 + digitVal c) mod 2 ^ 64 = n * 10 + digitVal c"
      using small d by simp_all
    have cut: "\<not> (n \<ge> (2 ^ 64 - 1) div 10 + 1)" using small by simp
    show ?thesis
    proof (cases "?n1 > M")
      case True
      have "?n1 \<le> decimal_value_from ?n1 cs" by (rule decimal_value_from_ge)
      with True have "\<not> decimal_value_from ?n1 cs \<le> M" by simp
      with True \<open>isDigit c\<close> cut nowrap show ?thesis
        by (simp add: Let_def mult.commute)
    next
      case False
      then have "?n1 \<le> M" by simp
      from Cons.IH [OF this Cons.prems(2)] False \<open>isDigit c\<close> cut nowrap show ?thesis
        by (simp add: Let_def mult.commute)
    qed
  qed
qed

lemma ParseUint_32_Inr:
  "ParseUint d 32 = Inr v \<longleftrightarrow> valid_uint32_decimal d \<and> v = decimal_value d"
proof (cases "d = []")
  case True
  then show ?thesis by (simp add: ParseUint_def valid_uint32_decimal_def)
next
  case False
  have "ParseUint_loop (2 ^ 32 - 1) 0 d = Inr v \<longleftrightarrow>
        list_all isDigit d \<and> v = decimal_value_from 0 d \<and> v \<le> 2 ^ 32 - 1"
    by (rule ParseUint_loop_Inr) simp_all
  with False show ?thesis
    by (auto simp: ParseUint_def valid_uint32_decimal_def decimal_value_def)
qed

lemma dtoi_loop_digits:
  "list_all isDigit ds \<Longrightarrow> text_end r \<Longrightarrow> decimal_value_from n ds < 0xFFFFFF \<Longrightarrow>
   0 < i + length ds \<Longrightarrow>
   dtoi_loop n i (ds @ r) = (decimal_value_from n ds, i + length ds, True)"
proof (induction ds arbitrary: n i)
  case Nil
  then show ?case by (cases r) (auto simp: text_end_def)
next
  case (Cons c ds)
  let ?n1 = "10 * n + digitVal c"
  have "?n1 \<le> decimal_value_from ?n1 ds" by (rule decimal_value_from_ge)
  with Cons.prems(3) have small: "?n1 < 0xFFFFFF" by simp
  have "dtoi_loop ?n1 (i + 1) (ds @ r) = (decimal_value_from ?n1 ds, (i + 1) + length ds, True)"
    using Cons.prems by (intro Cons.IH) simp_all
  with small Cons.prems(1) show ?case
    by (simp add: Let_def mult.commute)
qed

lemma dtoi_uitoa:
  "n < 0xFFFFFF \<Longrightarrow> text_end r \<Longrightarrow> dtoi (uitoa n @ r) = (n, length (uitoa n), True)"
  using dtoi_loop_digits [of "uitoa n" r 0 0] decimal_value_uitoa [of n]
  by (simp add: dtoi_def uitoa_digits uitoa_not_Nil decimal_value_def)

lemma text_end_dot [simp]: "text_end (CHR ''.'' # r)" "text_end []"
  by (simp_all add: text_end_def isDigit_def)

lemma parseIPv4_loop_first:
  assumes "n \<le> 255" "text_end r"
  shows "parseIPv4_loop 0 (uitoa n @ r) =
         (case parseIPv4_loop (Suc 0) r of None \<Rightarrow> None
          | Some (p, r') \<Rightarrow> Some (word_of_nat n # p, r'))"
proof -
  have d: "dtoi (uitoa n @ r) = (n, length (uitoa n), True)"
    using assms by (intro dtoi_uitoa) simp_all
  have ne: "uitoa n @ r \<noteq> []" using uitoa_not_Nil [of n] by simp
  show ?thesis
    using assms(1) by (subst parseIPv4_loop.simps) (simp add: Let_def d uitoa_not_Nil)
qed

lemma parseIPv4_loop_next:
  assumes "0 < i" "i < 4" "n \<le> 255" "text_end r" "j = i + 1"
  shows "parseIPv4_loop i (CHR ''.'' # uitoa n @ r) =
         (case parseIPv4_loop j r of None \<Rightarrow> None
          | Some (p, r') \<Rightarrow> Some (word_of_nat n # p, r'))"
proof -
  have d: "dtoi (uitoa n @ r) = (n, length (uitoa n), True)"
    using assms by (intro dtoi_uitoa) simp_all
  show ?thesis
    using assms(1,2,3) unfolding assms(5) by (subst parseIPv4_loop.simps) (simp add: Let_def d)
qed


lemma parseIPv4_IP_String: "parseIPv4 (IP_String ip) = Some ip"
proof -
  obtain a b c d where ip: "ip = (a, b, c, d)" by (cases ip) auto
  have bound: "unat x \<le> 255" for x :: byte
    using unsigned_less [of x, where ?'a = nat] by simp
  define r3 where "r3 = CHR ''.'' # uitoa (unat d) @ []"
  define r2 where "r2 = CHR ''.'' # uitoa (unat c) @ r3"
  define r1 where "r1 = CHR ''.'' # uitoa (unat b) @ r2"
  have e: "parseIPv4_loop 4 [] = Some ([], [])"
    by (subst parseIPv4_loop.simps) simp
  have "parseIPv4_loop 3 r3 =
      (case parseIPv4_loop 4 [] of None \<Rightarrow> None
       | Some (p, r') \<Rightarrow> Some (word_of_nat (unat d) # p, r'))"
    unfolding r3_def by (rule parseIPv4_loop_next) (simp_all add: bound)
  then have s3: "parseIPv4_loop 3 r3 = Some ([d], [])"
    by (simp add: e)
  have "parseIPv4_loop 2 r2 =
      (case parseIPv4_loop 3 r3 of None \<Rightarrow> None
       | Some (p, r') \<Rightarrow> Some (word_of_nat (unat c) # p, r'))"
    unfolding r2_def by (rule parseIPv4_loop_next) (simp_all add: bound r3_def)
  then have s2: "parseIPv4_loop 2 r2 = Some ([c, d], [])"
    by (simp add: s3)
  have "parseIPv4_loop (Suc 0) r1 =
      (case parseIPv4_loop 2 r2 of None \<Rightarrow> None
       | Some (p, r') \<Rightarrow> Some (word_of_nat (unat b) # p, r'))"
    unfolding r1_def by (rule parseIPv4_loop_next) (simp_all add: bound r2_def)
  then have s1: "parseIPv4_loop (Suc 0) r1 = Some ([b, c, d], [])"
    by (simp add: s2)
  have "parseIPv4_loop 0 (uitoa (unat a) @ r1) =
      (case parseIPv4_loop (Suc 0) r1 of None \<Rightarrow> None
       | Some (p, r') \<Rightarrow> Some (word_of_nat (unat a) # p, r'))"
    by (rule parseIPv4_loop_first) (simp_all add: bound r1_def)
  then have s0: "parseIPv4_loop 0 (uitoa (unat a) @ r1) = Some ([a, b, c, d], [])"
    by (simp add: s1)
  have "IP_String ip = uitoa (unat a) @ r1"
    by (simp add: IP_String_def ip r1_def r2_def r3_def)
  then show ?thesis
    using s0 by (simp add: parseIPv4_def ip)
qed

lemma IP_String_inject:
  assumes "IP_String x = IP_String y"
  shows "x = y"
proof -
  have "Some x = parseIPv4 (IP_String x)" by (simp only: parseIPv4_IP_String)
  also have "\<dots> = parseIPv4 (IP_String y)" by (simp only: assms)
  also have "\<dots> = Some y" by (simp only: parseIPv4_IP_String)
  finally show ?thesis by simp
qed

lemma dtoi_loop_big:
  "list_all isDigit ds \<Longrightarrow> decimal_value_from n ds \<ge> 0xFFFFFF \<Longrightarrow> n < 0xFFFFFF \<Longrightarrow>
   snd (snd (dtoi_loop n i ds)) = False"
proof (induction ds arbitrary: n i)
  case Nil
  then show ?case by simp
next
  case (Cons c ds)
  then show ?case by (simp add: Let_def mult.commute)
qed

lemma dtoi_uitoa_big:
  "n \<ge> 0xFFFFFF \<Longrightarrow> snd (snd (dtoi (uitoa n))) = False"
  using dtoi_loop_big [of "uitoa n" 0 0] decimal_value_uitoa [of n]
  by (simp add: dtoi_def uitoa_digits decimal_value_def)

lemma Uint32_PutUint32: "Uint32 (PutUint32 w) = w"
proof (rule bit_word_eqI)
  fix n :: nat
  assume n: "n < LENGTH(32)"
  consider "n < 8" | "8 \<le> n" "n < 16" | "16 \<le> n" "n < 24" | "24 \<le> n" "n < 32"
    using n by (cases "n < 8"; cases "n < 16"; cases "n < 24"; simp)
  then show "bit (Uint32 (PutUint32 w)) n = bit w n"
  proof cases
    case 1
    then show ?thesis by (auto simp: Uint32_def PutUint32_def bit_simps)
  next
    case 2
    then show ?thesis by (auto simp: Uint32_def PutUint32_def bit_simps)
  next
    case 3
    then show ?thesis by (auto simp: Uint32_def PutUint32_def bit_simps)
  next
    case 4
    then show ?thesis by (auto simp: Uint32_def PutUint32_def bit_simps)
  qed
qed

lemma unat_octet:
  "unat (ucast (drop_bit k w) :: byte) = unat w div 2 ^ k mod 256" for w :: uint32
  by (simp add: unsigned_ucast_eq unat_drop_bit_eq take_bit_eq_mod) (simp add: drop_bit_eq_div)

section \<open>The address codec\<close>

lemma digitChar_eval:
  "digitChar 0 = CHR ''0''" "digitChar 1 = CHR ''1''" "digitChar 2 = CHR ''2''"
  "digitChar 3 = CHR ''3''" "digitChar 4 = CHR ''4''" "digitChar 5 = CHR ''5''"
  "digitChar 6 = CHR ''6''" "digitChar 7 = CHR ''7''" "digitChar 8 = CHR ''8''"
  "digitChar 9 = CHR ''9''" "digitChar (Suc 0) = CHR ''1''"
  by code_simp+

lemma IP_String_PutUint32: "IP_String (PutUint32 w) = dotted_quad (unat w)"
  by (simp add: IP_String_def PutUint32_def dotted_quad_def unat_octet [of 0 w, simplified]
      unat_octet)

lemma decimalIPAddrToString_valid:
  assumes "valid_uint32_decimal d"
  shows "decimalIPAddrToString d = Inr (dotted_quad (decimal_value d))"
proof -
  have p: "ParseUint d 32 = Inr (decimal_value d)"
    using assms by (simp add: ParseUint_32_Inr)
  have "decimal_value d < 2 ^ 32"
    using assms by (simp add: valid_uint32_decimal_def)
  then have "unat (word_of_nat (decimal_value d) :: uint32) = decimal_value d"
    by (simp add: unat_of_nat)
  then show ?thesis
    by (simp add: decimalIPAddrToString_def p IP_String_PutUint32)
qed

lemma decimalIPAddrToString_invalid:
  assumes "\<not> valid_uint32_decimal d"
  shows "\<exists>e. decimalIPAddrToString d = Inl e"
proof (cases "ParseUint d 32")
  case (Inl e)
  then show ?thesis by (simp add: decimalIPAddrToString_def)
next
  case (Inr v)
  then have "valid_uint32_decimal d" by (simp add: ParseUint_32_Inr)
  with assms show ?thesis by simp
qed

text \<open>
  Claim C6. Every decimal string that denotes an unsigned 32-bit integer is decoded by
  \<open>decimalIPAddrToString\<close> without error to the dotted quad of its value, the four
  big-endian octets joined by dots, and encoding that dotted quad back gives the value
  of the string.
\<close>

theorem decimalIPAddrToString_roundtrip:
  assumes "valid_uint32_decimal d"
  shows "decimalIPAddrToString d = Inr (dotted_quad (decimal_value d)) \<and>
         encode_quad (dotted_quad (decimal_value d)) = Some (decimal_value d)"
proof -
  let ?v = "decimal_value d"
  let ?w = "word_of_nat ?v :: uint32"
  have "?v < 2 ^ 32"
    using assms by (simp add: valid_uint32_decimal_def)
  then have u: "unat ?w = ?v"
    by (simp add: unat_of_nat)
  have "encode_quad (dotted_quad (unat ?w)) = Some (unat ?w)"
    unfolding IP_String_PutUint32 [symmetric] encode_quad_def
    by (simp add: parseIPv4_IP_String Uint32_PutUint32)
  then show ?thesis
    using decimalIPAddrToString_valid [OF assms] by (simp add: u)
qed

theorem decimalIPAddrToString_roundtrip_witness:
  "valid_uint32_decimal ''168428032'' \<and>
   decimalIPAddrToString ''168428032'' = Inr ''10.10.2.0'' \<and>
   encode_quad ''10.10.2.0'' = Some 168428032"
proof -
  have v: "valid_uint32_decimal ''168428032''"
    by (simp add: valid_uint32_decimal_def decimal_value_def isDigit_def digitVal_def)
  have dv: "decimal_value ''168428032'' = 168428032"
    by (simp add: decimal_value_def digitVal_def)
  have dq: "dotted_quad 168428032 = ''10.10.2.0''"
    by (simp add: dotted_quad_def uitoa.simps digitChar_eval)
  show ?thesis
    using decimalIPAddrToString_roundtrip [OF v] v by (simp add: dv dq)
qed

text \<open>
  Claim C7. A string that is not a valid unsigned 32-bit decimal (a numeral beyond the
  32-bit range included) makes \<open>decimalIPAddrToString\<close> return an error and no dotted
  quad, and the row loops of \<open>fetchSubnets\<close> and \<open>fetchAddresses\<close> pass over a row
  with such an address: they go on with the remaining rows exactly as if the row had
  not been there.
\<close>

theorem decimalIPAddrToString_invalid_skips:
  assumes "\<not> valid_uint32_decimal d"
  shows "(\<exists>e. decimalIPAddrToString d = Inl e) \<and>
         fetchSubnets_rows t sectionID (Scanned (d, msk, description, vlanNumber) # rest) out h
           = fetchSubnets_rows t sectionID rest out h \<and>
         fetchAddresses_rows t (Scanned (d, description, dnsName, note, subnetAddr, subnetMask) # arest) aout h
           = fetchAddresses_rows t arest aout h \<and>
         fetchAddresses_rows t (Scanned (ipAddr, description, dnsName, note, d, subnetMask) # arest) aout h
           = fetchAddresses_rows t arest aout h"
proof -
  obtain e where e: "decimalIPAddrToString d = Inl e"
    using decimalIPAddrToString_invalid [OF assms] by blast
  show ?thesis
    by (simp add: e split: sum.split)
qed


theorem decimalIPAddrToString_invalid_skips_witness:
  "\<not> valid_uint32_decimal ''4294967296'' \<and>
   decimalIPAddrToString ''4294967296'' = Inl ErrRange \<and>
   fetchSubnets_rows (inventory []) 1
      [Scanned (''4294967296'', 24, ''v6'', \<lparr>Int64 = 0, Valid = False\<rparr>),
       Scanned (''168428032'', 24, ''lab'', \<lparr>Int64 = 0, Valid = False\<rparr>)] [] []
     = fetchSubnets_rows (inventory []) 1
      [Scanned (''168428032'', 24, ''lab'', \<lparr>Int64 = 0, Valid = False\<rparr>)] [] []"
proof -
  have nv: "\<not> valid_uint32_decimal ''4294967296''"
    by (simp add: valid_uint32_decimal_def decimal_value_def digitVal_def)
  have e: "decimalIPAddrToString ''4294967296'' = Inl ErrRange"
    by (simp add: decimalIPAddrToString_def ParseUint_def isDigit_def digitVal_def)
  show ?thesis
    using decimalIPAddrToString_invalid_skips [OF nv, of "inventory []" 1 24 "''v6''"
        "\<lparr>Int64 = 0, Valid = False\<rparr>"
        "[Scanned (''168428032'', 24, ''lab'', \<lparr>Int64 = 0, Valid = False\<rparr>)]" "[]" "[]"]
      nv e
    by blast
qed

section \<open>The parent resolver\<close>

lemma dtoi_loop_consumed:
  "dtoi_loop n i s = (n', i', True) \<Longrightarrow> c \<in> set s \<Longrightarrow> \<not> isDigit c \<Longrightarrow> i' < i + length s"
proof (induction s arbitrary: n i)
  case Nil
  then show ?case by simp
next
  case (Cons x s)
  show ?case
  proof (cases "isDigit x")
    case False
    with Cons.prems(1) show ?thesis by (auto split: if_splits)
  next
    case True
    with Cons.prems(3) have "c \<noteq> x" by auto
    with Cons.prems(2) have cs: "c \<in> set s" by simp
    from True Cons.prems(1)
    have "dtoi_loop (n * 10 + digitVal x) (i + 1) s = (n', i', True)"
      by (auto simp: Let_def split: if_splits)
    from Cons.IH [OF this cs Cons.prems(3)] show ?thesis by simp
  qed
qed

lemma slash_not_digit: "\<not> isDigit CHR ''/''"
  by (simp add: isDigit_def)

lemma dot_not_digit: "\<not> isDigit CHR ''.''"
  by (simp add: isDigit_def)

lemma uitoa_no_slash: "CHR ''/'' \<notin> set (uitoa n)"
  using uitoa_digits [of n] slash_not_digit by (auto simp: list_all_iff)

lemma takeWhile_upto: "c \<notin> set xs \<Longrightarrow> takeWhile (\<lambda>x. x \<noteq> c) (xs @ c # ys) = xs"
  by (induction xs) auto

lemma dropWhile_upto: "c \<notin> set xs \<Longrightarrow> dropWhile (\<lambda>x. x \<noteq> c) (xs @ c # ys) = c # ys"
  by (induction xs) auto

lemma takeWhile_within: "c \<in> set xs \<Longrightarrow> takeWhile (\<lambda>x. x \<noteq> c) (xs @ ys) = takeWhile (\<lambda>x. x \<noteq> c) xs"
  by (induction xs) auto

lemma dropWhile_within:
  "c \<in> set xs \<Longrightarrow> dropWhile (\<lambda>x. x \<noteq> c) (xs @ ys) = dropWhile (\<lambda>x. x \<noteq> c) xs @ ys"
  by (induction xs) auto

lemma ParseCIDR_slash:
  assumes "CHR ''/'' \<in> set addr"
  shows "ParseCIDR (addr @ CHR ''/'' # text) = None"
proof -
  let ?p = "\<lambda>c. c \<noteq> CHR ''/''"
  let ?s = "addr @ CHR ''/'' # text"
  have tw: "takeWhile ?p ?s = takeWhile ?p addr"
    using assms by (rule takeWhile_within)
  have dw: "dropWhile ?p ?s = dropWhile ?p addr @ CHR ''/'' # text"
    using assms by (rule dropWhile_within)
  have ne: "dropWhile ?p addr \<noteq> []"
    using assms by (simp add: dropWhile_eq_Nil_conv)
  define m where "m = tl (dropWhile ?p ?s)"
  have m: "m = tl (dropWhile ?p addr) @ CHR ''/'' # text"
    using ne by (simp add: m_def dw)
  then have sl: "CHR ''/'' \<in> set m" by simp
  have bad: "\<not> ok \<or> i \<noteq> length m" if "dtoi m = (n, i, ok)" for n i ok
  proof (cases ok)
    case True
    with that have "dtoi_loop 0 0 m = (n, i, True)" by (simp add: dtoi_def)
    from dtoi_loop_consumed [OF this sl slash_not_digit] show ?thesis by simp
  next
    case False
    then show ?thesis by simp
  qed
  obtain n i ok where d: "dtoi m = (n, i, ok)" by (cases "dtoi m") auto
  from bad [OF d] have "\<not> ok \<or> i \<noteq> length m" .
  then show ?thesis
    unfolding ParseCIDR_def Let_def m_def [symmetric] tw
    by (auto simp: d split: option.split)
qed

lemma ParseCIDR_plain:
  assumes "CHR ''/'' \<notin> set addr"
  shows "ParseCIDR (addr @ CHR ''/'' # uitoa k) =
     (case parseIPv4 addr of
        None \<Rightarrow> None
      | Some ip \<Rightarrow> if k \<le> 32 then Some (ip, (IP_Mask ip (CIDRMask k), k)) else None)"
proof -
  let ?p = "\<lambda>c. c \<noteq> CHR ''/''"
  let ?s = "addr @ CHR ''/'' # uitoa k"
  have tw: "takeWhile ?p ?s = addr"
    using assms by (rule takeWhile_upto)
  have dw: "tl (dropWhile ?p ?s) = uitoa k"
    using assms by (simp add: dropWhile_upto)
  have d: "case dtoi (uitoa k) of (n, i, ok) \<Rightarrow>
             (\<not> ok \<or> i \<noteq> length (uitoa k) \<or> n > 32) = (\<not> k \<le> 32) \<and> (k \<le> 32 \<longrightarrow> n = k)"
  proof (cases "k < 0xFFFFFF")
    case True
    then have "dtoi (uitoa k @ []) = (k, length (uitoa k), True)"
      by (intro dtoi_uitoa) simp_all
    then show ?thesis by auto
  next
    case False
    then have "snd (snd (dtoi (uitoa k))) = False"
      by (intro dtoi_uitoa_big) simp
    with False show ?thesis by (auto split: prod.split)
  qed
  show ?thesis
    unfolding ParseCIDR_def Let_def tw dw
    using d by (auto split: option.split prod.split)
qed

lemma Sprintf_s_d_nonneg:
  "0 \<le> sint n \<Longrightarrow> Sprintf_s_d addr n = addr @ CHR ''/'' # uitoa (nat (sint n))"
  by (simp add: Sprintf_s_d_def Itoa_def)

lemma ParseCIDR_Sprintf:
  assumes "0 \<le> sint n"
  shows "ParseCIDR (Sprintf_s_d addr n) =
     (if CHR ''/'' \<in> set addr then None
      else case parseIPv4 addr of
             None \<Rightarrow> None
           | Some ip \<Rightarrow>
               if sint n \<le> 32
               then Some (ip, (IP_Mask ip (CIDRMask (nat (sint n))), nat (sint n)))
               else None)"
proof (cases "CHR ''/'' \<in> set addr")
  case True
  then show ?thesis
    using assms by (simp add: Sprintf_s_d_nonneg ParseCIDR_slash)
next
  case False
  have "(nat (sint n) \<le> 32) = (sint n \<le> 32)" using assms by auto
  with False show ?thesis
    using assms by (simp add: Sprintf_s_d_nonneg ParseCIDR_plain split: option.split)
qed


lemma sint_dec: "- (2 ^ 63) < sint n \<Longrightarrow> sint (n - 1) = sint n - 1" for n :: go_int
proof -
  assume lo: "- (2 ^ 63) < sint n"
  have "sint n < 2 ^ 63" using sint_lt [of n] by simp
  then have "signed_take_bit 63 (sint n - 1) = sint n - 1"
    using lo by (intro signed_take_bit_int_eq_self) auto
  then show ?thesis by (simp add: sint_word_diff)
qed

lemma loop_below:
  "sint n < 8 \<Longrightarrow> ParentSubnetIDForCIDR_loop t addr n h = (Return 0, h)"
  by (subst ParentSubnetIDForCIDR_loop.simps) (simp add: word_sle_eq)

lemma loop_malformed:
  assumes "8 \<le> sint n"
    and "CHR ''/'' \<in> set addr \<or> parseIPv4 addr = None \<or> 32 < sint n"
  shows "ParentSubnetIDForCIDR_loop t addr n h = (Fatal, h)"
proof -
  have "ParseCIDR (Sprintf_s_d addr n) = None"
    using assms by (auto simp: ParseCIDR_Sprintf split: option.split)
  then show ?thesis
    using assms(1) by (subst ParentSubnetIDForCIDR_loop.simps) (simp add: word_sle_eq)
qed

lemma loop_probe:
  assumes "8 \<le> sint n" "sint n \<le> 32" "CHR ''/'' \<notin> set addr" "parseIPv4 addr = Some ip"
  shows "ParentSubnetIDForCIDR_loop t addr n h =
     (case onGetSubnetsByCIDR t h (probe_cidr ip (nat (sint n))) of
        Inr subnets \<Rightarrow>
          (case subnets of
             [] \<Rightarrow> (Panic, h @ [GetSubnetsByCIDR (probe_cidr ip (nat (sint n)))])
           | s # _ \<Rightarrow> (Return (ID s), h @ [GetSubnetsByCIDR (probe_cidr ip (nat (sint n)))]))
      | Inl err \<Rightarrow>
          if err = NotFound
          then ParentSubnetIDForCIDR_loop t addr (n - 1)
                 (h @ [GetSubnetsByCIDR (probe_cidr ip (nat (sint n)))])
          else (Fatal, h @ [GetSubnetsByCIDR (probe_cidr ip (nat (sint n)))]))"
proof -
  have p: "ParseCIDR (Sprintf_s_d addr n) =
           Some (ip, (IP_Mask ip (CIDRMask (nat (sint n))), nat (sint n)))"
    using assms by (simp add: ParseCIDR_Sprintf)
  show ?thesis
    using assms(1)
    by (subst ParentSubnetIDForCIDR_loop.simps)
       (simp add: word_sle_eq p probe_cidr_def NotFound_def Let_def split: sum.split list.split)
qed

lemma IP_String_no_slash: "CHR ''/'' \<notin> set (IP_String ip)"
proof -
  obtain a b c d where ip: "ip = (a, b, c, d)" by (cases ip) auto
  show ?thesis by (simp add: ip IP_String_def uitoa_no_slash)
qed

lemma loop_calls:
  assumes "CHR ''/'' \<notin> set addr" "parseIPv4 addr = Some ip"
  shows "\<exists>ks. snd (ParentSubnetIDForCIDR_loop t addr n h)
          = h @ map (\<lambda>k. GetSubnetsByCIDR (probe_cidr ip k)) ks \<and>
        (\<forall>k\<in>set ks. 8 \<le> k \<and> int k \<le> sint n)"
  using assms
proof (induction t addr n h rule: ParentSubnetIDForCIDR_loop.induct)
  case (1 t addr n h)
  note a' = "1.prems"
  let ?c = "probe_cidr ip (nat (sint n))"
  let ?h' = "h @ [GetSubnetsByCIDR ?c]"
  consider "sint n < 8" | "8 \<le> sint n" "32 < sint n" | "8 \<le> sint n" "sint n \<le> 32"
    by linarith
  then show ?case
  proof cases
    case 1
    then have "snd (ParentSubnetIDForCIDR_loop t addr n h) = h @ map (\<lambda>k. GetSubnetsByCIDR (probe_cidr ip k)) []"
      by (simp add: loop_below)
    then show ?thesis by (intro exI [of _ "[]"]) simp
  next
    case 2
    then have "snd (ParentSubnetIDForCIDR_loop t addr n h) = h @ map (\<lambda>k. GetSubnetsByCIDR (probe_cidr ip k)) []"
      by (simp add: loop_malformed)
    then show ?thesis by (intro exI [of _ "[]"]) simp
  next
    case 3
    note u = loop_probe [OF 3 a', where t = t and h = h]
    have one: "\<exists>ks. ?h' = h @ map (\<lambda>k. GetSubnetsByCIDR (probe_cidr ip k)) ks \<and>
        (\<forall>k\<in>set ks. 8 \<le> k \<and> int k \<le> sint n)"
      using 3 by (intro exI [of _ "[nat (sint n)]"]) simp
    show ?thesis
    proof (cases "onGetSubnetsByCIDR t h ?c")
      case (Inr subnets)
      then show ?thesis using u one by (cases subnets) simp_all
    next
      case (Inl err)
      show ?thesis
      proof (cases "err = NotFound")
        case False
        with Inl u one show ?thesis by simp
      next
        case True
        have p: "ParseCIDR (Sprintf_s_d addr n) =
           Some (ip, (IP_Mask ip (CIDRMask (nat (sint n))), nat (sint n)))"
          using 3 a' by (simp add: ParseCIDR_Sprintf)
        have "\<exists>ks. snd (ParentSubnetIDForCIDR_loop t addr (n - 1) ?h')
                = ?h' @ map (\<lambda>k. GetSubnetsByCIDR (probe_cidr ip k)) ks \<and>
              (\<forall>k\<in>set ks. 8 \<le> k \<and> int k \<le> sint (n - 1))"
        proof -
          have sle: "8 \<le>s n" using 3(1) by (simp add: word_sle_eq)
          have inl: "onGetSubnetsByCIDR t h
                       (IPNet_String (IP_Mask ip (CIDRMask (nat (sint n))), nat (sint n)))
                     = Inl ''Error from API (404): No subnets found''"
            using Inl True by (simp add: probe_cidr_def NotFound_def)
          show ?thesis
            using "1.IH" [OF sle p refl refl inl refl a'] by (simp add: probe_cidr_def)
        qed
        then obtain ks where ks:
          "snd (ParentSubnetIDForCIDR_loop t addr (n - 1) ?h')
                = ?h' @ map (\<lambda>k. GetSubnetsByCIDR (probe_cidr ip k)) ks"
          "\<forall>k\<in>set ks. 8 \<le> k \<and> int k \<le> sint (n - 1)"
          by blast
        have dec: "sint (n - 1) = sint n - 1" using 3(1) by (intro sint_dec) simp
        have "snd (ParentSubnetIDForCIDR_loop t addr n h)
                = h @ map (\<lambda>k. GetSubnetsByCIDR (probe_cidr ip k)) (nat (sint n) # ks)"
          using u Inl True ks(1) by simp
        moreover have "\<forall>k\<in>set (nat (sint n) # ks). 8 \<le> k \<and> int k \<le> sint n"
          using ks(2) 3 dec by auto
        ultimately show ?thesis by blast
      qed
    qed
  qed
qed


lemma loop_induct:
  fixes n :: go_int
  assumes step: "\<And>(n :: go_int) h. (\<And>h'. 8 \<le> sint n \<Longrightarrow> P (n - 1) h') \<Longrightarrow> P n h"
  shows "P n h"
proof -
  have "nat (sint n - 7) = k \<Longrightarrow> P n h" for k and n :: go_int and h
  proof (induction k arbitrary: n h)
    case 0
    then have "\<not> 8 \<le> sint n" by simp
    then show ?case by - (rule step, simp)
  next
    case (Suc k)
    show ?case
    proof (rule step)
      fix h' assume ge: "8 \<le> sint n"
      then have "sint (n - 1) = sint n - 1" by (intro sint_dec) simp
      with Suc.prems have "nat (sint (n - 1) - 7) = k" by simp
      then show "P (n - 1) h'" by (rule Suc.IH)
    qed
  qed
  then show ?thesis by blast
qed

lemma loop_calls_any:
  "\<exists>ks ip. snd (ParentSubnetIDForCIDR_loop t addr n h)
          = h @ map (\<lambda>k. GetSubnetsByCIDR (probe_cidr ip k)) ks \<and>
        (\<forall>k\<in>set ks. 8 \<le> k \<and> int k \<le> sint n)"
proof (cases "CHR ''/'' \<in> set addr \<or> parseIPv4 addr = None")
  case True
  have "snd (ParentSubnetIDForCIDR_loop t addr n h) = h"
  proof (cases "sint n < 8")
    case True
    then show ?thesis by (simp add: loop_below)
  next
    case False
    with \<open>CHR ''/'' \<in> set addr \<or> parseIPv4 addr = None\<close> show ?thesis
      using loop_malformed [of n addr t h] by auto
  qed
  then have "snd (ParentSubnetIDForCIDR_loop t addr n h)
          = h @ map (\<lambda>k. GetSubnetsByCIDR (probe_cidr (0, 0, 0, 0) k)) [] \<and>
        (\<forall>k\<in>set []. 8 \<le> k \<and> int k \<le> sint n)" by simp
  then show ?thesis by blast
next
  case False
  then obtain ip where "CHR ''/'' \<notin> set addr" "parseIPv4 addr = Some ip" by auto
  from loop_calls [OF this] show ?thesis by blast
qed

lemma loop_all_notfound:
  assumes "sint n \<le> 32"
    and "\<forall>xs k. list_all is_lookup xs \<and> 8 \<le> k \<and> int k \<le> sint n \<longrightarrow>
           onGetSubnetsByCIDR t (h @ xs) (probe_cidr a k) = Inl NotFound"
  shows "fst (ParentSubnetIDForCIDR_loop t (IP_String a) n h) = Return 0"
  using assms
proof (induction n h rule: loop_induct)
  case (1 n h)
  show ?case
  proof (cases "sint n < 8")
    case True
    then show ?thesis by (simp add: loop_below)
  next
    case False
    then have ge: "8 \<le> sint n" by simp
    let ?c = "probe_cidr a (nat (sint n))"
    have "onGetSubnetsByCIDR t (h @ []) ?c = Inl NotFound"
      using "1.prems"(2) ge by (intro "1.prems"(2) [rule_format]) simp
    then have nf: "onGetSubnetsByCIDR t h ?c = Inl NotFound" by simp
    have dec: "sint (n - 1) = sint n - 1" using ge by (intro sint_dec) simp
    have later: "\<forall>xs k. list_all is_lookup xs \<and> 8 \<le> k \<and> int k \<le> sint (n - 1) \<longrightarrow>
           onGetSubnetsByCIDR t ((h @ [GetSubnetsByCIDR ?c]) @ xs) (probe_cidr a k) = Inl NotFound"
    proof (intro allI impI)
      fix xs k
      assume a: "list_all is_lookup xs \<and> 8 \<le> k \<and> int k \<le> sint (n - 1)"
      then have "onGetSubnetsByCIDR t (h @ (GetSubnetsByCIDR ?c # xs)) (probe_cidr a k) = Inl NotFound"
        using dec by (intro "1.prems"(2) [rule_format]) simp
      then show "onGetSubnetsByCIDR t ((h @ [GetSubnetsByCIDR ?c]) @ xs) (probe_cidr a k) = Inl NotFound"
        by simp
    qed
    have "fst (ParentSubnetIDForCIDR_loop t (IP_String a) (n - 1) (h @ [GetSubnetsByCIDR ?c])) = Return 0"
      using "1.prems"(1) ge dec later by (intro "1.IH") simp_all
    then show ?thesis
      using loop_probe [OF ge "1.prems"(1) IP_String_no_slash parseIPv4_IP_String, of t a h] nf
      by simp
  qed
qed

lemma inventory_state_lookups:
  "list_all is_lookup xs \<Longrightarrow> inventory_state reg0 (h @ xs) = inventory_state reg0 h"
proof (induction xs arbitrary: h)
  case Nil
  show ?case by simp
next
  case (Cons x xs)
  obtain vs ss where st: "foldl register ([], reg0) h = (vs, ss)"
    by (cases "foldl register ([], reg0) h") auto
  from Cons.prems have "register (vs, ss) x = (vs, ss)" by (cases x) simp_all
  then have "inventory_state reg0 (h @ [x]) = inventory_state reg0 h"
    by (simp add: inventory_state_def st)
  moreover have "inventory_state reg0 ((h @ [x]) @ xs) = inventory_state reg0 (h @ [x])"
    using Cons.prems by (intro Cons.IH) simp
  ultimately show ?case by simp
qed

lemma inventory_lookup_after_lookups:
  "list_all is_lookup xs \<Longrightarrow>
   onGetSubnetsByCIDR (inventory reg0) (h @ xs) c = onGetSubnetsByCIDR (inventory reg0) h c"
  by (simp add: inventory_def inventory_state_lookups)

lemma inventory_lookup_initial:
  "onGetSubnetsByCIDR (inventory reg0) [] c = registry_lookup reg0 c"
  by (simp add: inventory_def inventory_state_def)

text \<open>
  Claim C4. For a subnet whose address is a dotted quad, the resolver never asks the
  target system for a block with a prefix length below 8: every call it adds is a lookup
  of the block of some length \<open>k \<ge> 8\<close> around the address. For a mask of at most 8 it
  returns 0 at once, without a call, whatever the address. When every probe from
  \<open>mask - 1\<close> down to 8 is answered not-found, it returns 0. (The mask is one whose
  decrement does not wrap around, which leaves out \<open>-2^63\<close> alone, and for the last part
  at most 33, so that the first probe is a CIDR.)
\<close>

theorem ParentSubnetIDForCIDR_floor:
  "(\<exists>ks. snd (ParentSubnetIDForCIDR t (IP_String a) m h)
             = h @ map (\<lambda>k. GetSubnetsByCIDR (probe_cidr a k)) ks \<and>
           (\<forall>k\<in>set ks. 8 \<le> k)) \<and>
   (sint m \<le> 8 \<and> - (2 ^ 63) < sint m \<longrightarrow>
      ParentSubnetIDForCIDR t addr m h = (Return 0, h)) \<and>
   (sint m \<le> 33 \<and> - (2 ^ 63) < sint m \<and>
    (\<forall>xs k. list_all is_lookup xs \<and> 8 \<le> k \<and> int k < sint m \<longrightarrow>
        onGetSubnetsByCIDR t (h @ xs) (probe_cidr a k) = Inl NotFound) \<longrightarrow>
      fst (ParentSubnetIDForCIDR t (IP_String a) m h) = Return 0)"
proof (intro conjI impI)
  from loop_calls [OF IP_String_no_slash parseIPv4_IP_String, of t a "m - 1" h]
  show "\<exists>ks. snd (ParentSubnetIDForCIDR t (IP_String a) m h)
             = h @ map (\<lambda>k. GetSubnetsByCIDR (probe_cidr a k)) ks \<and>
           (\<forall>k\<in>set ks. 8 \<le> k)"
    unfolding ParentSubnetIDForCIDR_def by blast
next
  assume "sint m \<le> 8 \<and> - (2 ^ 63) < sint m"
  then have "sint (m - 1) < 8" by (simp add: sint_dec)
  then show "ParentSubnetIDForCIDR t addr m h = (Return 0, h)"
    by (simp add: ParentSubnetIDForCIDR_def loop_below)
next
  assume a: "sint m \<le> 33 \<and> - (2 ^ 63) < sint m \<and>
    (\<forall>xs k. list_all is_lookup xs \<and> 8 \<le> k \<and> int k < sint m \<longrightarrow>
        onGetSubnetsByCIDR t (h @ xs) (probe_cidr a k) = Inl NotFound)"
  then have dec: "sint (m - 1) = sint m - 1" by (simp add: sint_dec)
  show "fst (ParentSubnetIDForCIDR t (IP_String a) m h) = Return 0"
    unfolding ParentSubnetIDForCIDR_def
    using a dec by (intro loop_all_notfound) auto
qed

theorem ParentSubnetIDForCIDR_floor_witness:
  "ParentSubnetIDForCIDR (inventory []) ''10.0.0.0'' 8 [] = (Return 0, []) \<and>
   fst (ParentSubnetIDForCIDR (inventory []) (IP_String (10, 10, 2, 0)) 24 []) = Return 0"
proof -
  have "onGetSubnetsByCIDR (inventory []) ([] @ xs) c = Inl NotFound"
    if "list_all is_lookup xs" for xs c
    unfolding inventory_lookup_after_lookups [OF that]
    by (simp add: inventory_lookup_initial registry_lookup_def NotFound_def)
  then have nf: "\<forall>xs k. list_all is_lookup xs \<and> 8 \<le> k \<and> int k < sint (24 :: go_int) \<longrightarrow>
        onGetSubnetsByCIDR (inventory []) ([] @ xs) (probe_cidr (10, 10, 2, 0) k) = Inl NotFound"
    by blast
  have s8: "sint (8 :: go_int) \<le> 8 \<and> - (2 ^ 63) < sint (8 :: go_int)" by simp
  have s24: "sint (24 :: go_int) \<le> 33 \<and> - (2 ^ 63) < sint (24 :: go_int)" by simp
  show ?thesis
    using ParentSubnetIDForCIDR_floor [where t = "inventory []" and addr = "''10.0.0.0''"
        and m = 8 and h = "[]" and a = "(10, 10, 2, 0)"]
      ParentSubnetIDForCIDR_floor [where t = "inventory []" and addr = "''10.0.0.0''"
        and m = 24 and h = "[]" and a = "(10, 10, 2, 0)"]
      nf s8 s24
    by blast
qed

lemma ParentSubnetIDForCIDR_wraps:
  "ParentSubnetIDForCIDR t addr (- (2 ^ 63)) h = (Fatal, h)"
proof -
  have "sint ((- (2 ^ 63) :: go_int) - 1) = 2 ^ 63 - 1" by simp
  then show ?thesis
    by (simp add: ParentSubnetIDForCIDR_def loop_malformed)
qed


lemma addSubnets_loop_fatal:
  "fst (ParentSubnetIDForCIDR t (SubnetAddress v) (Mask v) h) = Fatal \<Longrightarrow>
   addSubnets_loop t (v # data) h = (Fatal, snd (ParentSubnetIDForCIDR t (SubnetAddress v) (Mask v) h))"
  by (cases "ParentSubnetIDForCIDR t (SubnetAddress v) (Mask v) h") (simp add: and_then_def)

text \<open>
  Claim C5. At a probe of length \<open>n\<close> (from 8 to 32) the resolver does one of three
  things: a lookup that succeeds ends the resolution with the identifier of the first
  result; the not-found answer moves on to \<open>n - 1\<close>; any other error of the lookup is
  fatal after that single call, and so is a CIDR that does not parse, before any call:
  an address that holds a \<open>/\<close>, an address without a colon that is not a dotted quad,
  and a dotted quad with a prefix length above 32.
  A fatal resolver ends \<open>addSubnets\<close> on the spot, with no further call.
\<close>

theorem probe_outcomes:
  assumes "8 \<le> sint n" and "sint n \<le> 32"
  shows "(\<forall>s rest. onGetSubnetsByCIDR t h (probe_cidr a (nat (sint n))) = Inr (s # rest) \<longrightarrow>
            ParentSubnetIDForCIDR_loop t (IP_String a) n h
              = (Return (ID s), h @ [GetSubnetsByCIDR (probe_cidr a (nat (sint n)))])) \<and>
         (onGetSubnetsByCIDR t h (probe_cidr a (nat (sint n))) = Inl NotFound \<longrightarrow>
            ParentSubnetIDForCIDR_loop t (IP_String a) n h
              = ParentSubnetIDForCIDR_loop t (IP_String a) (n - 1)
                  (h @ [GetSubnetsByCIDR (probe_cidr a (nat (sint n)))])) \<and>
         (\<forall>e. onGetSubnetsByCIDR t h (probe_cidr a (nat (sint n))) = Inl e \<and> e \<noteq> NotFound \<longrightarrow>
            ParentSubnetIDForCIDR_loop t (IP_String a) n h
              = (Fatal, h @ [GetSubnetsByCIDR (probe_cidr a (nat (sint n)))])) \<and>
         (\<forall>addr. CHR ''/'' \<in> set addr \<or> (parseIPv4 addr = None \<and> CHR '':'' \<notin> set addr) \<longrightarrow>
            ParentSubnetIDForCIDR_loop t addr n h = (Fatal, h)) \<and>
         (\<forall>k. 32 < sint k \<longrightarrow> ParentSubnetIDForCIDR_loop t (IP_String a) k h = (Fatal, h)) \<and>
         (\<forall>v data. fst (ParentSubnetIDForCIDR t (SubnetAddress v) (Mask v) h) = Fatal \<longrightarrow>
            addSubnets_loop t (v # data) h
              = (Fatal, snd (ParentSubnetIDForCIDR t (SubnetAddress v) (Mask v) h)))"
proof -
  note u = loop_probe [OF assms IP_String_no_slash parseIPv4_IP_String, of t a h]
  have 1: "\<forall>s rest. onGetSubnetsByCIDR t h (probe_cidr a (nat (sint n))) = Inr (s # rest) \<longrightarrow>
            ParentSubnetIDForCIDR_loop t (IP_String a) n h
              = (Return (ID s), h @ [GetSubnetsByCIDR (probe_cidr a (nat (sint n)))])"
    using u by simp
  have 2: "onGetSubnetsByCIDR t h (probe_cidr a (nat (sint n))) = Inl NotFound \<longrightarrow>
            ParentSubnetIDForCIDR_loop t (IP_String a) n h
              = ParentSubnetIDForCIDR_loop t (IP_String a) (n - 1)
                  (h @ [GetSubnetsByCIDR (probe_cidr a (nat (sint n)))])"
    using u by simp
  have 3: "\<forall>e. onGetSubnetsByCIDR t h (probe_cidr a (nat (sint n))) = Inl e \<and> e \<noteq> NotFound \<longrightarrow>
            ParentSubnetIDForCIDR_loop t (IP_String a) n h
              = (Fatal, h @ [GetSubnetsByCIDR (probe_cidr a (nat (sint n)))])"
    using u by simp
  have 4: "\<forall>addr. CHR ''/'' \<in> set addr \<or> (parseIPv4 addr = None \<and> CHR '':'' \<notin> set addr) \<longrightarrow>
            ParentSubnetIDForCIDR_loop t addr n h = (Fatal, h)"
    using assms(1) loop_malformed by blast
  have 6: "\<forall>k. 32 < sint k \<longrightarrow> ParentSubnetIDForCIDR_loop t (IP_String a) k h = (Fatal, h)"
  proof (intro allI impI)
    fix k :: go_int
    assume "32 < sint k"
    then show "ParentSubnetIDForCIDR_loop t (IP_String a) k h = (Fatal, h)"
      by (intro loop_malformed) simp_all
  qed
  have 5: "\<forall>v data. fst (ParentSubnetIDForCIDR t (SubnetAddress v) (Mask v) h) = Fatal \<longrightarrow>
            addSubnets_loop t (v # data) h
              = (Fatal, snd (ParentSubnetIDForCIDR t (SubnetAddress v) (Mask v) h))"
    using addSubnets_loop_fatal by blast
  from 1 2 3 4 5 6 show ?thesis by blast
qed

lemma probe_cidr_eval_23: "probe_cidr (10, 10, 2, 0) 23 = ''10.10.2.0/23''"
  by (simp add: probe_cidr_def IPNet_String_def IP_String_def IP_Mask_def CIDRMask_def
      maskByte_def uitoa.simps digitChar_eval)

theorem probe_outcomes_witness:
  "8 \<le> sint (23 :: go_int) \<and> sint (23 :: go_int) \<le> 32 \<and>
   ParentSubnetIDForCIDR_loop (inventory []) (IP_String (10, 10, 2, 0)) 23 []
     = ParentSubnetIDForCIDR_loop (inventory []) (IP_String (10, 10, 2, 0)) 22
         [GetSubnetsByCIDR ''10.10.2.0/23''] \<and>
   ParentSubnetIDForCIDR_loop (inventory []) ''10.10.2.0/24'' 23 [] = (Fatal, []) \<and>
   ParentSubnetIDForCIDR_loop (inventory []) (IP_String (10, 10, 2, 0)) 33 [] = (Fatal, [])"
proof -
  have sl: "CHR ''/'' \<in> set ''10.10.2.0/24''" by simp
  have big: "32 < sint (33 :: go_int)" by simp
  have a: "8 \<le> sint (23 :: go_int)" and b: "sint (23 :: go_int) \<le> 32" by simp_all
  have nf: "onGetSubnetsByCIDR (inventory []) [] (probe_cidr (10, 10, 2, 0) (nat (sint (23 :: go_int))))
              = Inl NotFound"
    by (simp add: inventory_lookup_initial registry_lookup_def NotFound_def)
  show ?thesis
    using probe_outcomes [OF a b, of "inventory []" "[]" "(10, 10, 2, 0)"] nf a b sl big
    by (simp add: probe_cidr_eval_23)
qed


lemma and_then_no_panic:
  "fst r \<noteq> Panic \<Longrightarrow> (\<And>x h. fst (f x h) \<noteq> Panic) \<Longrightarrow> fst (and_then r f) \<noteq> Panic"
  by (cases r; cases "fst r") (auto simp: and_then_def)

lemma vlanIDForNumber_panic:
  "fst (vlanIDForNumber t n h) = Panic \<longleftrightarrow> onGetVLANsByNumber t h n = Inr []"
  by (auto simp: vlanIDForNumber_def Let_def split: sum.splits list.splits)

lemma subnetIDForCIDR_panic:
  "fst (subnetIDForCIDR t cidr h) = Panic \<longleftrightarrow> onGetSubnetsByCIDR t h cidr = Inr []"
  by (auto simp: subnetIDForCIDR_def Let_def split: sum.splits list.splits)

lemma loop_panic:
  "fst (ParentSubnetIDForCIDR_loop t addr n h) = Panic \<Longrightarrow> \<exists>h' c. onGetSubnetsByCIDR t h' c = Inr []"
proof (induction n h rule: loop_induct)
  case (1 n h)
  show ?case
  proof (cases "8 \<le> sint n")
    case False
    with "1.prems" show ?thesis by (simp add: loop_below)
  next
    case True
    show ?thesis
    proof (cases "CHR ''/'' \<in> set addr \<or> parseIPv4 addr = None \<or> 32 < sint n")
      case True
      with "1.prems" \<open>8 \<le> sint n\<close> loop_malformed [of n addr t h] show ?thesis by simp
    next
      case False
      then obtain ip where ok: "sint n \<le> 32" "CHR ''/'' \<notin> set addr" "parseIPv4 addr = Some ip"
        by auto
      note u = loop_probe [OF True ok, of t h]
      show ?thesis
      proof (cases "onGetSubnetsByCIDR t h (probe_cidr ip (nat (sint n)))")
        case (Inr subnets)
        with u "1.prems" have "subnets = []" by (cases subnets) simp_all
        with Inr show ?thesis by blast
      next
        case (Inl err)
        with u "1.prems" have "err = NotFound" by (cases "err = NotFound") simp_all
        with u Inl "1.prems" True show ?thesis by (intro "1.IH") simp_all
      qed
    qed
  qed
qed

lemma ParentSubnetIDForCIDR_no_panic:
  "nonempty_results t \<Longrightarrow> fst (ParentSubnetIDForCIDR t addr m h) \<noteq> Panic"
  using loop_panic [of t addr "m - 1" h]
  by (auto simp: ParentSubnetIDForCIDR_def nonempty_results_def)

lemma fetchVLANs_rows_no_panic: "fetchVLANs_rows rows out \<noteq> Panic"
  by (induction rows out rule: fetchVLANs_rows.induct) simp_all

lemma fetchVLANs_no_panic: "fst (fetchVLANs conn h) \<noteq> Panic"
  using fetchVLANs_rows_no_panic
  by (auto simp: fetchVLANs_def split: query.splits outcome.splits)

lemma fetchSubnets_rows_no_panic:
  "nonempty_results t \<Longrightarrow> fst (fetchSubnets_rows t sectionID rows out h) \<noteq> Panic"
proof (induction t sectionID rows out h rule: fetchSubnets_rows.induct)
  case (3 t sectionID addr msk description vlanNumber rest out h)
  show ?case
  proof (cases "decimalIPAddrToString addr")
    case (Inl e)
    with 3 show ?thesis by simp
  next
    case (Inr strAddr)
    have v: "fst (if Int64 vlanNumber \<noteq> 0 then vlanIDForNumber t (Int64 vlanNumber) h
                  else (Return 0, h)) \<noteq> Panic"
      using "3.prems" by (simp add: vlanIDForNumber_panic nonempty_results_def)
    let ?F = "\<lambda>vlanID h'. fetchSubnets_rows t sectionID rest
                 (out @ [Subnet_zero\<lparr>SubnetAddress := strAddr, Mask := msk,
                           Description := description, VLANID := vlanID,
                           SectionID := sectionID\<rparr>]) h'"
    have eq: "fetchSubnets_rows t sectionID (Scanned (addr, msk, description, vlanNumber) # rest) out h
              = and_then (if Int64 vlanNumber \<noteq> 0 then vlanIDForNumber t (Int64 vlanNumber) h
                          else (Return 0, h)) ?F"
      by (simp add: Inr)
    have "fst (and_then (if Int64 vlanNumber \<noteq> 0 then vlanIDForNumber t (Int64 vlanNumber) h
                          else (Return 0, h)) ?F) \<noteq> Panic"
    proof (rule and_then_no_panic [OF v])
      fix x h'
      show "fst (?F x h') \<noteq> Panic"
        using "3.IH"(2) [OF Inr] "3.prems" by simp
    qed
    then show ?thesis unfolding eq .
  qed
qed simp_all


lemma fetchSubnets_no_panic:
  assumes "nonempty_results t"
  shows "fst (fetchSubnets t sectionID conn h) \<noteq> Panic"
proof (cases "subnets_query conn")
  case QueryError
  then show ?thesis by (simp add: fetchSubnets_def)
next
  case (Rows rows err)
  have "fst (and_then (fetchSubnets_rows t sectionID rows [] h)
               (\<lambda>out h'. if err then (Fatal, h') else (Return out, h'))) \<noteq> Panic"
    by (rule and_then_no_panic [OF fetchSubnets_rows_no_panic [OF assms]]) simp
  then show ?thesis by (simp add: fetchSubnets_def Rows)
qed

lemma fetchAddresses_rows_no_panic:
  "nonempty_results t \<Longrightarrow> fst (fetchAddresses_rows t rows out h) \<noteq> Panic"
proof (induction t rows out h rule: fetchAddresses_rows.induct)
  case (3 t ipAddr description dnsName nt subnetAddr subnetMask rest out h)
  show ?case
  proof (cases "decimalIPAddrToString ipAddr")
    case (Inl e)
    with 3 show ?thesis by simp
  next
    case ip: (Inr ipString)
    show ?thesis
    proof (cases "decimalIPAddrToString subnetAddr")
      case (Inl e)
      with 3 ip show ?thesis by simp
    next
      case sn: (Inr subnetString)
      let ?F = "\<lambda>subnetID h'. fetchAddresses_rows t rest
                      (out @ [\<lparr>Address_SubnetID = subnetID, Address_IPAddress = ipString,
                                Address_Description = description, Address_Hostname = dnsName,
                                Address_Note = nt\<rparr>]) h'"
      have eq: "fetchAddresses_rows t
                  (Scanned (ipAddr, description, dnsName, nt, subnetAddr, subnetMask) # rest) out h
                = and_then (subnetIDForCIDR t (Sprintf_s_d subnetString subnetMask) h) ?F"
        by (simp add: ip sn)
      have v: "fst (subnetIDForCIDR t (Sprintf_s_d subnetString subnetMask) h) \<noteq> Panic"
        using "3.prems" by (simp add: subnetIDForCIDR_panic nonempty_results_def)
      have "fst (and_then (subnetIDForCIDR t (Sprintf_s_d subnetString subnetMask) h) ?F) \<noteq> Panic"
      proof (rule and_then_no_panic [OF v])
        fix x h'
        show "fst (?F x h') \<noteq> Panic"
          using "3.IH"(3) [OF ip sn] "3.prems" by simp
      qed
      then show ?thesis unfolding eq .
    qed
  qed
qed simp_all

lemma fetchAddresses_no_panic:
  assumes "nonempty_results t"
  shows "fst (fetchAddresses t conn h) \<noteq> Panic"
proof (cases "addresses_query conn")
  case QueryError
  then show ?thesis by (simp add: fetchAddresses_def)
next
  case (Rows rows err)
  have "fst (and_then (fetchAddresses_rows t rows [] h)
               (\<lambda>out h'. if err then (Fatal, h') else (Return out, h'))) \<noteq> Panic"
    by (rule and_then_no_panic [OF fetchAddresses_rows_no_panic [OF assms]]) simp
  then show ?thesis by (simp add: fetchAddresses_def Rows)
qed

lemma addVLANs_no_panic: "fst (addVLANs t lans h) \<noteq> Panic"
  by (induction t lans h rule: addVLANs.induct) (auto split: sum.splits)

lemma addAddresses_no_panic: "fst (addAddresses t addrs h) \<noteq> Panic"
  by (induction t addrs h rule: addAddresses.induct) (auto split: sum.splits)

lemma addSubnets_loop_no_panic:
  "nonempty_results t \<Longrightarrow> fst (addSubnets_loop t data h) \<noteq> Panic"
proof (induction data arbitrary: h)
  case Nil
  show ?case by simp
next
  case (Cons v data)
  let ?F = "\<lambda>id h'.
          let v' = (if id \<noteq> 0 then v\<lparr>MasterSubnetID := id\<rparr> else v)
          in case onCreateSubnet t h' v' of
               Inl err \<Rightarrow> (Fatal, h' @ [CreateSubnet v'])
             | Inr message \<Rightarrow> addSubnets_loop t data (h' @ [CreateSubnet v'])"
  have "fst (and_then (ParentSubnetIDForCIDR t (SubnetAddress v) (Mask v) h) ?F) \<noteq> Panic"
  proof (rule and_then_no_panic)
    show "fst (ParentSubnetIDForCIDR t (SubnetAddress v) (Mask v) h) \<noteq> Panic"
      using Cons.prems by (rule ParentSubnetIDForCIDR_no_panic)
  next
    fix x h'
    show "fst (?F x h') \<noteq> Panic"
      using Cons.IH [OF Cons.prems] by (simp add: Let_def split: sum.splits)
  qed
  then show ?case by simp
qed

lemma main_no_panic:
  assumes "nonempty_results t"
  shows "fst (main t sectionID db) \<noteq> Panic"
proof (cases db)
  case None
  then show ?thesis by (simp add: main_def)
next
  case (Some conn)
  show ?thesis
    unfolding main_def Some option.case
    by (intro and_then_no_panic fetchVLANs_no_panic addVLANs_no_panic
          fetchSubnets_no_panic [OF assms] fetchAddresses_no_panic [OF assms]
          addAddresses_no_panic)
       (simp add: addSubnets_def addSubnets_loop_no_panic [OF assms])
qed

text \<open>
  Claim C9. The three lookup helpers read element 0 of a result that came without an
  error: \<open>vlanIDForNumber\<close> and \<open>subnetIDForCIDR\<close> panic exactly when the lookup succeeds
  with an empty list, the resolver panics at a probe that succeeds with an empty list
  and panics only if some lookup does so; when successful lookups are never empty, the
  whole program is free of the panic.
\<close>

theorem lookups_index_zero:
  "(fst (vlanIDForNumber t n h) = Panic \<longleftrightarrow> onGetVLANsByNumber t h n = Inr []) \<and>
   (fst (subnetIDForCIDR t cidr h) = Panic \<longleftrightarrow> onGetSubnetsByCIDR t h cidr = Inr []) \<and>
   (8 \<le> sint k \<and> sint k \<le> 32 \<and>
    onGetSubnetsByCIDR t h (probe_cidr a (nat (sint k))) = Inr [] \<longrightarrow>
      fst (ParentSubnetIDForCIDR_loop t (IP_String a) k h) = Panic) \<and>
   (fst (ParentSubnetIDForCIDR t addr m h) = Panic \<longrightarrow>
      (\<exists>h' c. onGetSubnetsByCIDR t h' c = Inr [])) \<and>
   (nonempty_results t \<longrightarrow> fst (main t sectionID db) \<noteq> Panic)"
proof (intro conjI impI)
  show "fst (vlanIDForNumber t n h) = Panic \<longleftrightarrow> onGetVLANsByNumber t h n = Inr []"
    by (rule vlanIDForNumber_panic)
  show "fst (subnetIDForCIDR t cidr h) = Panic \<longleftrightarrow> onGetSubnetsByCIDR t h cidr = Inr []"
    by (rule subnetIDForCIDR_panic)
next
  assume a: "8 \<le> sint k \<and> sint k \<le> 32 \<and>
    onGetSubnetsByCIDR t h (probe_cidr a (nat (sint k))) = Inr []"
  then have "8 \<le> sint k" "sint k \<le> 32" by simp_all
  from loop_probe [OF this IP_String_no_slash parseIPv4_IP_String, of t a h] a
  show "fst (ParentSubnetIDForCIDR_loop t (IP_String a) k h) = Panic" by simp
next
  assume "fst (ParentSubnetIDForCIDR t addr m h) = Panic"
  then show "\<exists>h' c. onGetSubnetsByCIDR t h' c = Inr []"
    unfolding ParentSubnetIDForCIDR_def by (rule loop_panic)
next
  assume "nonempty_results t"
  then show "fst (main t sectionID db) \<noteq> Panic" by (rule main_no_panic)
qed

lemma nonempty_results_inventory: "nonempty_results (inventory reg0)"
  by (simp add: nonempty_results_def inventory_def registry_lookup_def vlan_lookup_def Let_def)

theorem lookups_index_zero_witness:
  "fst (vlanIDForNumber (inventory []\<lparr>onGetVLANsByNumber := \<lambda>h n. Inr []\<rparr>) 7 []) = Panic \<and>
   fst (ParentSubnetIDForCIDR_loop (inventory []\<lparr>onGetSubnetsByCIDR := \<lambda>h c. Inr []\<rparr>)
          (IP_String (10, 10, 2, 0)) 23 []) = Panic \<and>
   nonempty_results (inventory []) \<and>
   fst (main (inventory []) 1 (Some example_db)) \<noteq> Panic"
proof -
  let ?t1 = "inventory []\<lparr>onGetVLANsByNumber := \<lambda>h n. Inr []\<rparr>"
  let ?t2 = "inventory []\<lparr>onGetSubnetsByCIDR := \<lambda>h c. Inr []\<rparr>"
  have 1: "onGetVLANsByNumber ?t1 [] 7 = Inr []" by simp
  have 2: "8 \<le> sint (23 :: go_int) \<and> sint (23 :: go_int) \<le> 32 \<and>
           onGetSubnetsByCIDR ?t2 [] (probe_cidr (10, 10, 2, 0) (nat (sint (23 :: go_int)))) = Inr []"
    by simp
  show ?thesis
    using lookups_index_zero [of ?t1 7 "[]" "[]" 23 "(10, 10, 2, 0)" "[]" 24 1 None]
      lookups_index_zero [of ?t2 7 "[]" "[]" 23 "(10, 10, 2, 0)" "[]" 24 1 None]
      lookups_index_zero [of "inventory []" 7 "[]" "[]" 23 "(10, 10, 2, 0)" "[]" 24 1 "Some example_db"]
      1 2 nonempty_results_inventory [of "[]"]
    by blast
qed

section \<open>The narrowest containing block\<close>

lemma length_byte_bits [simp]: "length (byte_bits w) = 8"
  by (simp add: byte_bits_def)

lemma length_ip_bits [simp]: "length (ip_bits ip) = 32"
  by (cases ip) (simp add: ip_bits_def)

lemma byte_bits_inject: "byte_bits x = byte_bits y \<Longrightarrow> x = y"
proof (rule bit_word_eqI)
  fix n :: nat
  assume e: "byte_bits x = byte_bits y" and "n < LENGTH(8)"
  then have "n \<in> set [0, 1, 2, 3, 4, 5, 6, 7]" by auto
  with e show "bit x n = bit y n" by (auto simp: byte_bits_def)
qed

lemma ip_bits_inject: "ip_bits x = ip_bits y \<Longrightarrow> x = y"
  by (cases x; cases y) (auto simp: ip_bits_def dest: byte_bits_inject)

lemma byte_bits_and: "byte_bits (x AND y) = map2 (\<and>) (byte_bits x) (byte_bits y)"
  by (simp add: byte_bits_def bit_and_iff)

lemma ip_bits_IP_Mask: "ip_bits (IP_Mask ip m) = map2 (\<and>) (ip_bits ip) (ip_bits m)"
  by (cases ip; cases m) (simp add: ip_bits_def IP_Mask_def byte_bits_and)

lemma byte_bits_ff: "byte_bits 0xff = replicate 8 True"
  by (simp add: byte_bits_def numeral_eq_Suc)

lemma byte_bits_maskByte_low:
  assumes "n < 8"
  shows "byte_bits (NOT (drop_bit n 0xff)) = replicate n True @ replicate (8 - n) False"
proof -
  from assms have "n \<in> set [0, 1, 2, 3, 4, 5, 6, 7]"
    by auto
  then show ?thesis
    by (auto simp: byte_bits_def numeral_eq_Suc bit_simps)
qed

lemma byte_bits_maskByte:
  "byte_bits (maskByte n) = replicate (min n 8) True @ replicate (8 - min n 8) False"
  by (cases "n < 8") (simp_all add: maskByte_def byte_bits_ff byte_bits_maskByte_low)


lemma ip_bits_CIDRMask:
  assumes "k \<le> 32"
  shows "ip_bits (CIDRMask k) = replicate k True @ replicate (32 - k) False"
proof -
  consider "k \<le> 8" | "8 < k" "k \<le> 16" | "16 < k" "k \<le> 24" | "24 < k" "k \<le> 32"
    using assms by linarith
  then show ?thesis
  proof cases
    case 1
    then have "replicate (8 - k) False @ replicate 8 False @ replicate 8 False @ replicate 8 False
               = replicate (32 - k) False"
      by (simp add: replicate_add [symmetric])
    moreover have "min k 8 = k" "min (k - 8) 8 = 0" "min (k - 16) 8 = 0" "min (k - 24) 8 = 0"
      using 1 by auto
    ultimately show ?thesis
      by (simp add: ip_bits_def CIDRMask_def byte_bits_maskByte)
  next
    case 2
    then have a: "replicate 8 True @ replicate (k - 8) True = replicate k True"
      and b: "replicate (16 - k) False @ replicate 8 False @ replicate 8 False = replicate (32 - k) False"
      by (simp_all add: replicate_add [symmetric])
    have "ip_bits (CIDRMask k) = (replicate 8 True @ replicate (k - 8) True) @
            (replicate (16 - k) False @ replicate 8 False @ replicate 8 False)"
    proof -
      have "min k 8 = 8" "min (k - 8) 8 = k - 8" "min (k - 16) 8 = 0" "min (k - 24) 8 = 0"
        "8 - (k - 8) = 16 - k"
        using 2 by auto
      then show ?thesis
        by (simp add: ip_bits_def CIDRMask_def byte_bits_maskByte)
    qed
    then show ?thesis by (simp only: a b)
  next
    case 3
    then have a: "replicate 8 True @ replicate 8 True @ replicate (k - 16) True = replicate k True"
      and b: "replicate (24 - k) False @ replicate 8 False = replicate (32 - k) False"
      by (simp_all add: replicate_add [symmetric])
    have "ip_bits (CIDRMask k) = (replicate 8 True @ replicate 8 True @ replicate (k - 16) True) @
            (replicate (24 - k) False @ replicate 8 False)"
    proof -
      have "min k 8 = 8" "min (k - 8) 8 = 8" "min (k - 16) 8 = k - 16" "min (k - 24) 8 = 0"
        "8 - (k - 16) = 24 - k"
        using 3 by auto
      then show ?thesis
        by (simp add: ip_bits_def CIDRMask_def byte_bits_maskByte)
    qed
    then show ?thesis by (simp only: a b)
  next
    case 4
    then have a: "replicate 8 True @ replicate 8 True @ replicate 8 True @ replicate (k - 24) True
                  = replicate k True"
      by (simp add: replicate_add [symmetric])
    have "ip_bits (CIDRMask k) = (replicate 8 True @ replicate 8 True @ replicate 8 True @
            replicate (k - 24) True) @ replicate (32 - k) False"
    proof -
      have "min k 8 = 8" "min (k - 8) 8 = 8" "min (k - 16) 8 = 8" "min (k - 24) 8 = k - 24"
        "8 - (k - 24) = 32 - k"
        using 4 by auto
      then show ?thesis
        by (simp add: ip_bits_def CIDRMask_def byte_bits_maskByte)
    qed
    then show ?thesis by (simp only: a)
  qed
qed

lemma map2_and_mask:
  assumes "length xs = k + j"
  shows "map2 (\<and>) xs (replicate k True @ replicate j False) = take k xs @ replicate j False"
proof -
  have t: "map2 (\<and>) ys (replicate (length ys) True) = ys" for ys
    by (induction ys) simp_all
  have f: "map2 (\<and>) ys (replicate (length ys) False) = replicate (length ys) False" for ys
    by (induction ys) simp_all
  define ys where "ys = take k xs"
  define zs where "zs = drop k xs"
  have xs: "xs = ys @ zs" by (simp add: ys_def zs_def)
  have ly: "length ys = k" using assms by (simp add: ys_def)
  have lz: "length zs = j" using assms by (simp add: zs_def)
  have "map2 (\<and>) (ys @ zs) (replicate k True @ replicate j False) = ys @ replicate j False"
    using t [of ys] f [of zs] by (simp add: ly lz)
  moreover have "take k (ys @ zs) = ys" by (simp add: ly)
  ultimately show ?thesis unfolding xs by simp
qed


lemma ip_bits_network:
  "k \<le> 32 \<Longrightarrow> ip_bits (IP_Mask a (CIDRMask k)) = take k (ip_bits a) @ replicate (32 - k) False"
  by (simp add: ip_bits_IP_Mask ip_bits_CIDRMask map2_and_mask)

lemma in_prefix_network:
  "in_prefix net k a \<longleftrightarrow> k \<le> 32 \<and> net = IP_Mask a (CIDRMask k)"
proof (cases "k \<le> 32")
  case False
  then show ?thesis by (simp add: in_prefix_def)
next
  case True
  have "net = IP_Mask a (CIDRMask k) \<longleftrightarrow> ip_bits net = ip_bits (IP_Mask a (CIDRMask k))"
    using ip_bits_inject [of net "IP_Mask a (CIDRMask k)"] by blast
  also have "\<dots> \<longleftrightarrow> take k (ip_bits net) @ drop k (ip_bits net)
                      = take k (ip_bits a) @ replicate (32 - k) False"
    using True by (simp add: ip_bits_network)
  also have "\<dots> \<longleftrightarrow> take k (ip_bits net) = take k (ip_bits a) \<and>
                     drop k (ip_bits net) = replicate (32 - k) False"
    using True by (subst append_eq_append_conv) simp_all
  finally show ?thesis
    using True by (auto simp: in_prefix_def)
qed


lemma Itoa_no_slash: "CHR ''/'' \<notin> set (Itoa i)"
  by (simp add: Itoa_def uitoa_no_slash)

lemma split_at_last:
  assumes "c \<notin> set ys" "c \<notin> set ys'" "xs @ c # ys = xs' @ c # ys'"
  shows "xs = xs' \<and> ys = ys'"
proof -
  have "rev ys @ c # rev xs = rev ys' @ c # rev xs'"
    using arg_cong [OF assms(3), of rev] by simp
  then have "takeWhile (\<lambda>x. x \<noteq> c) (rev ys @ c # rev xs)
           = takeWhile (\<lambda>x. x \<noteq> c) (rev ys' @ c # rev xs')"
    by simp
  then have "rev ys = rev ys'"
    using assms(1,2) by (simp add: takeWhile_upto)
  then have "ys = ys'" by simp
  with assms(3) show ?thesis by simp
qed

lemma Itoa_eq_uitoa: "Itoa i = uitoa k \<longleftrightarrow> i = int k"
proof
  assume e: "Itoa i = uitoa k"
  show "i = int k"
  proof (cases "i < 0")
    case True
    then have "CHR ''-'' \<in> set (uitoa k)"
      using e [symmetric] by (simp add: Itoa_def)
    moreover have "\<not> isDigit CHR ''-''" by (simp add: isDigit_def)
    ultimately show ?thesis
      using uitoa_digits [of k] by (auto simp: list_all_iff)
  next
    case False
    then have "uitoa (nat i) = uitoa k" using e by (simp add: Itoa_def)
    then have "decimal_value (uitoa (nat i)) = decimal_value (uitoa k)" by simp
    then have "nat i = k" by (simp add: decimal_value_uitoa)
    with False show ?thesis by simp
  qed
next
  assume "i = int k"
  then show "Itoa i = uitoa k" by (simp add: Itoa_def)
qed

lemma cidr_match:
  "Sprintf_s_d (SubnetAddress b) (Mask b) = probe_cidr a k \<longleftrightarrow>
   SubnetAddress b = IP_String (IP_Mask a (CIDRMask k)) \<and> sint (Mask b) = int k"
proof -
  have "SubnetAddress b @ CHR ''/'' # Itoa (sint (Mask b))
          = IP_String (IP_Mask a (CIDRMask k)) @ CHR ''/'' # uitoa k \<longleftrightarrow>
        SubnetAddress b = IP_String (IP_Mask a (CIDRMask k)) \<and> Itoa (sint (Mask b)) = uitoa k"
    using split_at_last [OF Itoa_no_slash uitoa_no_slash] by auto
  then show ?thesis
    by (simp add: Sprintf_s_d_def probe_cidr_def IPNet_String_def Itoa_eq_uitoa)
qed

lemma block_match:
  assumes "k \<le> 32"
  shows "Sprintf_s_d (SubnetAddress b) (Mask b) = probe_cidr a k \<longleftrightarrow>
         block_contains b a \<and> sint (Mask b) = int k"
proof
  assume "Sprintf_s_d (SubnetAddress b) (Mask b) = probe_cidr a k"
  then have e: "SubnetAddress b = IP_String (IP_Mask a (CIDRMask k))" "sint (Mask b) = int k"
    by (simp_all add: cidr_match)
  have "in_prefix (IP_Mask a (CIDRMask k)) k a"
    using assms by (simp add: in_prefix_network)
  with e show "block_contains b a \<and> sint (Mask b) = int k"
    unfolding block_contains_def by blast
next
  assume a: "block_contains b a \<and> sint (Mask b) = int k"
  then obtain net k' where n: "SubnetAddress b = IP_String net" "sint (Mask b) = int k'"
    "in_prefix net k' a"
    unfolding block_contains_def by blast
  with a have "k' = k" by simp
  with n(3) have "net = IP_Mask a (CIDRMask k)" by (simp add: in_prefix_network)
  with n(1) have "SubnetAddress b = IP_String (IP_Mask a (CIDRMask k))" by simp
  moreover from a have "sint (Mask b) = int k" by simp
  ultimately show "Sprintf_s_d (SubnetAddress b) (Mask b) = probe_cidr a k"
    unfolding cidr_match by simp
qed

lemma registry_lookup_cases:
  assumes "k \<le> 32"
  shows "(registry_lookup reg (probe_cidr a k) = Inl NotFound \<and>
          (\<forall>b\<in>set reg. \<not> (block_contains b a \<and> sint (Mask b) = int k))) \<or>
         (\<exists>b rest. registry_lookup reg (probe_cidr a k) = Inr (b # rest) \<and> b \<in> set reg \<and>
            block_contains b a \<and> sint (Mask b) = int k)"
proof -
  let ?found = "filter (\<lambda>b. Sprintf_s_d (SubnetAddress b) (Mask b) = probe_cidr a k) reg"
  show ?thesis
  proof (cases ?found)
    case Nil
    then have "\<forall>b\<in>set reg. Sprintf_s_d (SubnetAddress b) (Mask b) \<noteq> probe_cidr a k"
      by (simp add: filter_empty_conv)
    then have "\<forall>b\<in>set reg. \<not> (block_contains b a \<and> sint (Mask b) = int k)"
      using block_match [OF assms] by blast
    with Nil show ?thesis by (simp add: registry_lookup_def)
  next
    case (Cons b rest)
    then have "b \<in> set ?found" by simp
    then have "b \<in> set reg" "Sprintf_s_d (SubnetAddress b) (Mask b) = probe_cidr a k"
      by simp_all
    then have "b \<in> set reg \<and> block_contains b a \<and> sint (Mask b) = int k"
      using block_match [OF assms] by blast
    with Cons show ?thesis by (simp add: registry_lookup_def)
  qed
qed


lemma loop_narrowest:
  assumes "\<forall>xs c. list_all is_lookup xs \<longrightarrow>
             onGetSubnetsByCIDR t (h @ xs) c = registry_lookup reg c"
    and "ParentSubnetIDForCIDR_loop t (IP_String a) n h = (Return i, h')"
    and "i \<noteq> 0"
  shows "\<exists>b\<in>set reg. ID b = i \<and> 8 \<le> sint (Mask b) \<and> sint (Mask b) \<le> sint n \<and>
           block_contains b a \<and>
           (\<forall>b'\<in>set reg. block_contains b' a \<longrightarrow>
              \<not> (sint (Mask b) < sint (Mask b') \<and> sint (Mask b') \<le> sint n))"
  using assms
proof (induction n h rule: loop_induct)
  case (1 n h)
  note reg = "1.prems"(1) and run = "1.prems"(2) and nz = "1.prems"(3)
  have ge: "8 \<le> sint n"
  proof (rule ccontr)
    assume "\<not> 8 \<le> sint n"
    with run nz show False by (simp add: loop_below)
  qed
  have le: "sint n \<le> 32"
  proof (rule ccontr)
    assume "\<not> sint n \<le> 32"
    with run ge show False by (simp add: loop_malformed)
  qed
  define k where "k = nat (sint n)"
  have k: "int k = sint n" "k \<le> 32" using ge le by (simp_all add: k_def)
  let ?c = "probe_cidr a k"
  note u = loop_probe [OF ge le IP_String_no_slash parseIPv4_IP_String, of t a h, folded k_def]
  have look: "onGetSubnetsByCIDR t h ?c = registry_lookup reg ?c"
    using reg [rule_format, of "[]" ?c] by simp
  from registry_lookup_cases [OF k(2), of reg a]
  show ?case
  proof (elim disjE conjE exE)
    fix b rest
    assume f: "registry_lookup reg ?c = Inr (b # rest)" "b \<in> set reg" "block_contains b a"
      "sint (Mask b) = int k"
    with u look run have "ID b = i" by simp
    with f k ge show ?thesis by (intro bexI [of _ b]) auto
  next
    assume nf: "registry_lookup reg ?c = Inl NotFound"
      and none: "\<forall>b\<in>set reg. \<not> (block_contains b a \<and> sint (Mask b) = int k)"
    have dec: "sint (n - 1) = sint n - 1" using ge by (intro sint_dec) simp
    have next_run: "ParentSubnetIDForCIDR_loop t (IP_String a) (n - 1) (h @ [GetSubnetsByCIDR ?c])
                    = (Return i, h')"
      using u look nf run by simp
    have later: "\<forall>xs c. list_all is_lookup xs \<longrightarrow>
             onGetSubnetsByCIDR t ((h @ [GetSubnetsByCIDR ?c]) @ xs) c = registry_lookup reg c"
    proof (intro allI impI)
      fix xs c assume "list_all is_lookup xs"
      then have "onGetSubnetsByCIDR t (h @ (GetSubnetsByCIDR ?c # xs)) c = registry_lookup reg c"
        by (intro reg [rule_format]) simp
      then show "onGetSubnetsByCIDR t ((h @ [GetSubnetsByCIDR ?c]) @ xs) c = registry_lookup reg c"
        by simp
    qed
    from "1.IH" [OF ge later next_run nz]
    obtain b where b: "b \<in> set reg" "ID b = i" "8 \<le> sint (Mask b)" "sint (Mask b) \<le> sint (n - 1)"
      "block_contains b a"
      "\<forall>b'\<in>set reg. block_contains b' a \<longrightarrow>
              \<not> (sint (Mask b) < sint (Mask b') \<and> sint (Mask b') \<le> sint (n - 1))"
      by blast
    have "\<forall>b'\<in>set reg. block_contains b' a \<longrightarrow>
              \<not> (sint (Mask b) < sint (Mask b') \<and> sint (Mask b') \<le> sint n)"
    proof (intro ballI impI notI)
      fix b' assume b': "b' \<in> set reg" "block_contains b' a"
        "sint (Mask b) < sint (Mask b') \<and> sint (Mask b') \<le> sint n"
      with b(6) dec have "sint (Mask b') = sint n" by force
      with none b' k show False by auto
    qed
    with b dec show ?thesis by (intro bexI [of _ b]) auto
  qed
qed


lemma inventory_loop_probe:
  assumes "list_all is_lookup h" "8 \<le> sint n" "sint n \<le> 32"
  shows "ParentSubnetIDForCIDR_loop (inventory reg) (IP_String a) n h =
     (case registry_lookup reg (probe_cidr a (nat (sint n))) of
        Inr subnets \<Rightarrow>
          (case subnets of
             [] \<Rightarrow> (Panic, h @ [GetSubnetsByCIDR (probe_cidr a (nat (sint n)))])
           | s # _ \<Rightarrow> (Return (ID s), h @ [GetSubnetsByCIDR (probe_cidr a (nat (sint n)))]))
      | Inl err \<Rightarrow>
          if err = NotFound
          then ParentSubnetIDForCIDR_loop (inventory reg) (IP_String a) (n - 1)
                 (h @ [GetSubnetsByCIDR (probe_cidr a (nat (sint n)))])
          else (Fatal, h @ [GetSubnetsByCIDR (probe_cidr a (nat (sint n)))]))"
proof -
  have "onGetSubnetsByCIDR (inventory reg) ([] @ h) c = registry_lookup reg c" for c
    using inventory_lookup_after_lookups [OF assms(1), of reg "[]" c]
    by (simp add: inventory_lookup_initial)
  then have l: "onGetSubnetsByCIDR (inventory reg) h c = registry_lookup reg c" for c
    by simp
  show ?thesis
    unfolding loop_probe [OF assms(2,3) IP_String_no_slash parseIPv4_IP_String] l ..
qed

lemma probe_cidr_example:
  "probe_cidr (10, 10, 2, 0) 23 = ''10.10.2.0/23''"
  "probe_cidr (10, 10, 2, 0) 22 = ''10.10.0.0/22''"
  "probe_cidr (10, 10, 2, 0) 21 = ''10.10.0.0/21''"
  "probe_cidr (10, 10, 2, 0) 20 = ''10.10.0.0/20''"
  "probe_cidr (10, 10, 2, 0) 19 = ''10.10.0.0/19''"
  "probe_cidr (10, 10, 2, 0) 18 = ''10.10.0.0/18''"
  "probe_cidr (10, 10, 2, 0) 17 = ''10.10.0.0/17''"
  "probe_cidr (10, 10, 2, 0) 16 = ''10.10.0.0/16''"
  by (simp_all add: probe_cidr_def IPNet_String_def IP_String_def IP_Mask_def CIDRMask_def
      maskByte_def uitoa.simps digitChar_eval)

lemma IP_String_example: "IP_String (10, 10, 2, 0) = ''10.10.2.0''"
  by (simp add: IP_String_def uitoa.simps digitChar_eval)

lemma Sprintf_example:
  "Sprintf_s_d ''10.0.0.0'' 8 = ''10.0.0.0/8''"
  "Sprintf_s_d ''10.10.0.0'' 16 = ''10.10.0.0/16''"
  by (simp_all add: Sprintf_s_d_def Itoa_def uitoa.simps digitChar_eval)

lemma example_resolution:
  "ParentSubnetIDForCIDR
     (inventory [registered i8 ''10.0.0.0'' 8, registered i16 ''10.10.0.0'' 16])
     ''10.10.2.0'' 24 []
   = (Return i16, map GetSubnetsByCIDR
        [''10.10.2.0/23'', ''10.10.0.0/22'', ''10.10.0.0/21'', ''10.10.0.0/20'',
         ''10.10.0.0/19'', ''10.10.0.0/18'', ''10.10.0.0/17'', ''10.10.0.0/16''])"
  unfolding IP_String_example [symmetric] ParentSubnetIDForCIDR_def
  by (simp add: inventory_loop_probe probe_cidr_example registry_lookup_def registered_def
      Subnet_zero_def Sprintf_example NotFound_def)

text \<open>
  Claim C1. Take a target system whose lookups answer from the registered records
  \<open>reg\<close>, a subnet with address \<open>a\<close> and mask \<open>m > 8\<close>, and a resolver run that returns
  an identifier other than 0. Then the identifier is that of a registered block that
  contains \<open>a\<close> and whose mask is below \<open>m\<close>, and no registered block containing \<open>a\<close>
  has a mask strictly between that one and \<open>m\<close>: the block found is the narrowest.
  With the blocks 10.0.0.0/8 and 10.10.0.0/16 registered, resolving 10.10.2.0/24 gives
  the identifier of 10.10.0.0/16.
\<close>

theorem ParentSubnetIDForCIDR_narrowest:
  "((\<forall>xs c. list_all is_lookup xs \<longrightarrow>
        onGetSubnetsByCIDR t (h @ xs) c = registry_lookup reg c) \<and>
    8 < sint m \<and> ParentSubnetIDForCIDR t (IP_String a) m h = (Return i, h') \<and> i \<noteq> 0 \<longrightarrow>
    (\<exists>b\<in>set reg. ID b = i \<and> sint (Mask b) < sint m \<and> block_contains b a \<and>
       (\<forall>b'\<in>set reg. block_contains b' a \<longrightarrow>
          \<not> (sint (Mask b) < sint (Mask b') \<and> sint (Mask b') < sint m)))) \<and>
   fst (ParentSubnetIDForCIDR
          (inventory [registered i8 ''10.0.0.0'' 8, registered i16 ''10.10.0.0'' 16])
          ''10.10.2.0'' 24 []) = Return i16"
proof (intro conjI impI)
  assume a: "(\<forall>xs c. list_all is_lookup xs \<longrightarrow>
        onGetSubnetsByCIDR t (h @ xs) c = registry_lookup reg c) \<and>
    8 < sint m \<and> ParentSubnetIDForCIDR t (IP_String a) m h = (Return i, h') \<and> i \<noteq> 0"
  then have dec: "sint (m - 1) = sint m - 1" by (intro sint_dec) simp
  from a have "\<exists>b\<in>set reg. ID b = i \<and> 8 \<le> sint (Mask b) \<and> sint (Mask b) \<le> sint (m - 1) \<and>
           block_contains b a \<and>
           (\<forall>b'\<in>set reg. block_contains b' a \<longrightarrow>
              \<not> (sint (Mask b) < sint (Mask b') \<and> sint (Mask b') \<le> sint (m - 1)))"
    by (intro loop_narrowest [where h = h and h' = h' and t = t])
       (simp_all add: ParentSubnetIDForCIDR_def)
  then show "\<exists>b\<in>set reg. ID b = i \<and> sint (Mask b) < sint m \<and> block_contains b a \<and>
       (\<forall>b'\<in>set reg. block_contains b' a \<longrightarrow>
          \<not> (sint (Mask b) < sint (Mask b') \<and> sint (Mask b') < sint m))"
    unfolding dec by (elim bexE conjE, intro bexI) auto
next
  show "fst (ParentSubnetIDForCIDR
          (inventory [registered i8 ''10.0.0.0'' 8, registered i16 ''10.10.0.0'' 16])
          ''10.10.2.0'' 24 []) = Return i16"
    by (simp add: example_resolution)
qed


theorem ParentSubnetIDForCIDR_narrowest_witness:
  "fst (ParentSubnetIDForCIDR
          (inventory [registered 1 ''10.0.0.0'' 8, registered 2 ''10.10.0.0'' 16])
          (IP_String (10, 10, 2, 0)) 24 []) = Return 2 \<and>
   (\<exists>b\<in>set [registered 1 ''10.0.0.0'' 8, registered 2 ''10.10.0.0'' 16].
       ID b = 2 \<and> sint (Mask b) < sint (24 :: go_int) \<and> block_contains b (10, 10, 2, 0) \<and>
       (\<forall>b'\<in>set [registered 1 ''10.0.0.0'' 8, registered 2 ''10.10.0.0'' 16].
          block_contains b' (10, 10, 2, 0) \<longrightarrow>
          \<not> (sint (Mask b) < sint (Mask b') \<and> sint (Mask b') < sint (24 :: go_int))))"
proof -
  let ?reg = "[registered 1 ''10.0.0.0'' 8, registered 2 ''10.10.0.0'' 16]"
  let ?t = "inventory ?reg"
  let ?run = "ParentSubnetIDForCIDR ?t (IP_String (10, 10, 2, 0)) 24 []"
  note narrowest = ParentSubnetIDForCIDR_narrowest
    [of ?t "[]" ?reg 24 "(10, 10, 2, 0)" 2 "snd ?run" 1 2]
  have found: "fst ?run = Return 2"
    using narrowest by (simp add: IP_String_example)
  have reg: "\<forall>xs c. list_all is_lookup xs \<longrightarrow>
        onGetSubnetsByCIDR ?t ([] @ xs) c = registry_lookup ?reg c"
  proof (intro allI impI)
    fix xs c assume "list_all is_lookup xs"
    from inventory_lookup_after_lookups [OF this, of ?reg "[]" c]
    show "onGetSubnetsByCIDR ?t ([] @ xs) c = registry_lookup ?reg c"
      by (simp add: inventory_lookup_initial)
  qed
  have run: "?run = (Return 2, snd ?run)"
    using found by (simp add: prod_eq_iff)
  have "(8 :: int) < sint (24 :: go_int)" "(2 :: go_int) \<noteq> 0" by simp_all
  with narrowest reg run found show ?thesis by blast
qed

section \<open>The phases of the program\<close>









lemma adds_ParentSubnetIDForCIDR:
  "adds (\<lambda>c. is_lookup c \<and> subnet_phase c) h (ParentSubnetIDForCIDR t addr m h)"
proof -
  from loop_calls_any [of t addr "m - 1" h]
  obtain ks ip where "snd (ParentSubnetIDForCIDR t addr m h)
      = h @ map (\<lambda>k. GetSubnetsByCIDR (probe_cidr ip k)) ks"
    unfolding ParentSubnetIDForCIDR_def by blast
  then show ?thesis
    by (auto simp: adds_def list_all_iff)
qed











lemma adds_first: "adds P h r \<Longrightarrow> adds2 P Q h r"
  unfolding adds_def adds2_def
  by (elim exE conjE, rule_tac x = xs in exI, rule_tac x = "[]" in exI) simp











section \<open>The subnet phase\<close>

lemma subnet_creations_append:
  "subnet_creations (xs @ ys) = subnet_creations xs @ subnet_creations ys"
  by (induction xs rule: subnet_creations.induct) simp_all

lemma subnet_creations_lookups: "list_all is_lookup xs \<Longrightarrow> subnet_creations xs = []"
  by (induction xs rule: subnet_creations.induct) simp_all

lemma resolved_create_frame: "resolved_create t h tr c v \<Longrightarrow> same_but_parent c v"
  by (auto simp: resolved_create_def same_but_parent_def)

lemma resolved_create_earlier:
  "resolved_create t (h @ xs) tr c v \<Longrightarrow> resolved_create t h tr c v"
  unfolding resolved_create_def
  by (elim exE, rule_tac x = "xs @ pre" in exI) auto

lemma addSubnets_loop_creations:
  "\<exists>xs. snd (addSubnets_loop t data h) = h @ xs \<and>
        length (subnet_creations xs) \<le> length data \<and>
        list_all2 (resolved_create t h (h @ xs)) (subnet_creations xs)
          (take (length (subnet_creations xs)) data) \<and>
        (fst (addSubnets_loop t data h) = Return () \<longrightarrow>
           length (subnet_creations xs) = length data)"
proof (induction data arbitrary: h)
  case Nil
  have "snd (addSubnets_loop t [] h) = h @ []" by simp
  then show ?case by (intro exI [where x = "[]"]) simp
next
  case (Cons v data)
  obtain out h2 where r: "ParentSubnetIDForCIDR t (SubnetAddress v) (Mask v) h = (out, h2)"
    by (cases "ParentSubnetIDForCIDR t (SubnetAddress v) (Mask v) h")
  from adds_ParentSubnetIDForCIDR [of h t "SubnetAddress v" "Mask v"] r
  obtain ps where ps: "h2 = h @ ps" "list_all is_lookup ps"
    by (auto simp: adds_def list_all_iff)
  then have nops: "subnet_creations ps = []" by (simp add: subnet_creations_lookups)
  show ?case
  proof (cases out)
    case Fatal
    with r ps have "snd (addSubnets_loop t (v # data) h) = h @ ps"
      "fst (addSubnets_loop t (v # data) h) \<noteq> Return ()" by (simp_all add: and_then_def)
    with nops show ?thesis by (intro exI [of _ ps]) simp
  next
    case Panic
    with r ps have "snd (addSubnets_loop t (v # data) h) = h @ ps"
      "fst (addSubnets_loop t (v # data) h) \<noteq> Return ()" by (simp_all add: and_then_def)
    with nops show ?thesis by (intro exI [of _ ps]) simp
  next
    case (Return i)
    define c where "c = (if i \<noteq> 0 then v\<lparr>MasterSubnetID := i\<rparr> else v)"
    have step: "addSubnets_loop t (v # data) h =
        (case onCreateSubnet t h2 c of
           Inl err \<Rightarrow> (Fatal, h2 @ [CreateSubnet c])
         | Inr message \<Rightarrow> addSubnets_loop t data (h2 @ [CreateSubnet c]))"
      using r Return unfolding c_def by (simp add: and_then_def Let_def)
    have run: "ParentSubnetIDForCIDR t (SubnetAddress v) (Mask v) (h @ []) = (Return i, h2)"
      using r Return by simp
    show ?thesis
    proof (cases "onCreateSubnet t h2 c")
      case (Inl e)
      let ?xs = "ps @ [CreateSubnet c]"
      have tr: "snd (addSubnets_loop t (v # data) h) = h @ ?xs"
        "fst (addSubnets_loop t (v # data) h) \<noteq> Return ()"
        using step Inl ps by simp_all
      have "resolved_create t h (h @ ?xs) c v"
        unfolding resolved_create_def
        using run ps c_def by (intro exI [of _ "[]"] exI [of _ h2] exI [of _ i]) simp
      with tr nops show ?thesis
        by (intro exI [of _ ?xs]) (simp add: subnet_creations_append)
    next
      case (Inr msg)
      let ?h' = "h2 @ [CreateSubnet c]"
      from Cons.IH [of ?h'] obtain ys where ys:
        "snd (addSubnets_loop t data ?h') = ?h' @ ys"
        "length (subnet_creations ys) \<le> length data"
        "list_all2 (resolved_create t ?h' (?h' @ ys)) (subnet_creations ys)
           (take (length (subnet_creations ys)) data)"
        "fst (addSubnets_loop t data ?h') = Return () \<longrightarrow>
           length (subnet_creations ys) = length data"
        by blast
      let ?xs = "ps @ [CreateSubnet c] @ ys"
      have tr: "snd (addSubnets_loop t (v # data) h) = h @ ?xs"
        using step Inr ps ys(1) by simp
      have all: "fst (addSubnets_loop t (v # data) h) = Return () \<longrightarrow>
           length (subnet_creations ys) = length data"
        using step Inr ys(4) by simp
      have eq: "?h' @ ys = h @ ?xs" using ps by simp
      have hd: "resolved_create t h (h @ ?xs) c v"
        unfolding resolved_create_def
        using run ps c_def by (intro exI [of _ "[]"] exI [of _ h2] exI [of _ i] exI [of _ ys]) simp
      have "?h' = h @ (ps @ [CreateSubnet c])" using ps by simp
      then have tl: "list_all2 (resolved_create t h (h @ ?xs)) (subnet_creations ys)
           (take (length (subnet_creations ys)) data)"
        using ys(3) unfolding eq
        by (auto elim!: list_all2_mono intro: resolved_create_earlier)
      have cr: "subnet_creations (ps @ CreateSubnet c # ys) = c # subnet_creations ys"
        using nops by (simp add: subnet_creations_append)
      show ?thesis
        using tr ys(2) hd tl all by (intro exI [of _ ?xs]) (simp add: cr)
    qed
  qed
qed


lemma fetchSubnets_rows_no_parent:
  "fetchSubnets_rows t sectionID rows out h = (Return nets, h') \<Longrightarrow>
   list_all (\<lambda>v. MasterSubnetID v = 0) out \<Longrightarrow> list_all (\<lambda>v. MasterSubnetID v = 0) nets"
proof (induction t sectionID rows out h rule: fetchSubnets_rows.induct)
  case (1 t sectionID out h)
  then show ?case by simp
next
  case (2 t sectionID rest out h)
  then show ?case by simp
next
  case (3 t sectionID addr msk description vlanNumber rest out h)
  show ?case
  proof (cases "decimalIPAddrToString addr")
    case (Inl e)
    with 3 show ?thesis by simp
  next
    case (Inr strAddr)
    let ?V = "if Int64 vlanNumber \<noteq> 0 then vlanIDForNumber t (Int64 vlanNumber) h
              else (Return 0, h)"
    obtain o1 h1 where v: "?V = (o1, h1)" by (cases ?V)
    show ?thesis
    proof (cases o1)
      case (Return vlanID)
      let ?rec = "Subnet_zero\<lparr>SubnetAddress := strAddr, Mask := msk,
                           Description := description, VLANID := vlanID,
                           SectionID := sectionID\<rparr>"
      have "fetchSubnets_rows t sectionID rest (out @ [?rec]) h1 = (Return nets, h')"
        using "3.prems"(1) Inr v Return by (simp add: and_then_def)
      moreover have "list_all (\<lambda>v. MasterSubnetID v = 0) (out @ [?rec])"
        using "3.prems"(2) by (simp add: Subnet_zero_def)
      ultimately show ?thesis by (rule "3.IH"(2) [OF Inr])
    next
      case Fatal
      with "3.prems"(1) Inr v show ?thesis by (simp add: and_then_def)
    next
      case Panic
      with "3.prems"(1) Inr v show ?thesis by (simp add: and_then_def)
    qed
  qed
qed

lemma fetchSubnets_no_parent:
  assumes "fetchSubnets t sectionID conn h = (Return nets, h')"
  shows "list_all (\<lambda>v. MasterSubnetID v = 0) nets"
proof (cases "subnets_query conn")
  case QueryError
  with assms show ?thesis by (simp add: fetchSubnets_def)
next
  case (Rows rows err)
  obtain o1 h1 where r: "fetchSubnets_rows t sectionID rows [] h = (o1, h1)"
    by (cases "fetchSubnets_rows t sectionID rows [] h")
  with assms Rows have "o1 = Return nets"
    by (cases o1; cases err) (simp_all add: fetchSubnets_def and_then_def)
  with r have "fetchSubnets_rows t sectionID rows [] h = (Return nets, h1)" by simp
  then show ?thesis by (rule fetchSubnets_rows_no_parent) simp
qed


lemma decode_examples:
  "decimalIPAddrToString ''168428032'' = Inr ''10.10.2.0''"
  "decimalIPAddrToString ''167772160'' = Inr ''10.0.0.0''"
  "decimalIPAddrToString ''168427520'' = Inr ''10.10.0.0''"
  "decimalIPAddrToString ''42540766411282592856903984951653826561'' = Inl ErrRange"
proof -
  have v: "valid_uint32_decimal ''168428032''" "valid_uint32_decimal ''167772160''"
    "valid_uint32_decimal ''168427520''"
    by (simp_all add: valid_uint32_decimal_def decimal_value_def isDigit_def digitVal_def)
  have d: "decimal_value ''168428032'' = 168428032" "decimal_value ''167772160'' = 167772160"
    "decimal_value ''168427520'' = 168427520"
    by (simp_all add: decimal_value_def digitVal_def)
  have q: "dotted_quad 168428032 = ''10.10.2.0''" "dotted_quad 167772160 = ''10.0.0.0''"
    "dotted_quad 168427520 = ''10.10.0.0''"
    by (simp_all add: dotted_quad_def uitoa.simps digitChar_eval)
  show "decimalIPAddrToString ''168428032'' = Inr ''10.10.2.0''"
    using decimalIPAddrToString_valid [OF v(1)] by (simp add: d q)
  show "decimalIPAddrToString ''167772160'' = Inr ''10.0.0.0''"
    using decimalIPAddrToString_valid [OF v(2)] by (simp add: d q)
  show "decimalIPAddrToString ''168427520'' = Inr ''10.10.0.0''"
    using decimalIPAddrToString_valid [OF v(3)] by (simp add: d q)
  show "decimalIPAddrToString ''42540766411282592856903984951653826561'' = Inl ErrRange"
    by (simp add: decimalIPAddrToString_def ParseUint_def isDigit_def digitVal_def)
qed

lemma fetchSubnets_example:
  "fetchSubnets (inventory []) 1 example_db [CreateVLAN example_vlan]
     = (Return example_subnets, [CreateVLAN example_vlan, GetVLANsByNumber 7])"
  by (simp add: fetchSubnets_def example_db_def decode_examples and_then_def vlanIDForNumber_def
      inventory_def inventory_state_def vlan_lookup_def example_vlan_def example_subnets_def)


section \<open>The order of the sorter\<close>

lemma string_less_lexord: "string_less a b \<longleftrightarrow> bytewise_less a b"
  unfolding bytewise_less_def
  by (induction a b rule: string_less.induct) simp_all

lemma SubnetsSorter_Less_text:
  "Less SubnetsSorter s i j \<longleftrightarrow> bytewise_less (cidr_text (s ! i)) (cidr_text (s ! j))"
  by (simp add: SubnetsSorter_def SubnetsSorter_Less_def string_less_lexord cidr_text_def
      Sprintf_s_d_def)

lemma test_run: "Sort SubnetsSorter test_input = test_expected"
  by code_simp

text \<open>Claim C3. For every two records \<open>i\<close> and \<open>j\<close> of a list, \<open>Less\<close> of the sorter holds
  exactly when the text \<open>address/mask\<close> of \<open>i\<close> is smaller than that of \<open>j\<close> in the byte-wise
  lexicographic order; and \<open>sort.Sort\<close> turns the list of \<open>TestSubnetsSorter\<close>, 10.10.3.0/24,
  10.10.1.0/24, 10.0.0.0/8, 172.16.1.0/24, 10.10.4.0/24, 172.16.0.0/12, into 10.0.0.0/8,
  10.10.1.0/24, 10.10.3.0/24, 10.10.4.0/24, 172.16.0.0/12, 172.16.1.0/24.\<close>

theorem SubnetsSorter_order:
  "(i < length s \<and> j < length s \<longrightarrow>
      (Less SubnetsSorter s i j \<longleftrightarrow> bytewise_less (cidr_text (s ! i)) (cidr_text (s ! j)))) \<and>
   Sort SubnetsSorter test_input = test_expected"
  by (simp add: SubnetsSorter_Less_text test_run)

theorem SubnetsSorter_order_witness:
  "2 < length test_input \<and> 0 < length test_input \<and>
   Less SubnetsSorter test_input 2 0 \<and>
   bytewise_less (cidr_text (test_input ! 2)) (cidr_text (test_input ! 0))"
proof -
  have l: "2 < length test_input \<and> 0 < length test_input"
    by (simp add: test_input_def)
  have "Less SubnetsSorter test_input 2 0"
    by code_simp
  with l SubnetsSorter_order [of 2 test_input 0] show ?thesis by blast
qed


section \<open>Records of equal address and mask\<close>

lemma unstable_run:
  "Sort SubnetsSorter unstable_input =
     [subnet_of ''10.0.1.0'' 24 [], subnet_of ''10.0.2.0'' 24 [], subnet_of ''10.0.3.0'' 24 [],
      subnet_of ''10.0.4.0'' 24 [], subnet_of ''10.0.5.0'' 24 [], subnet_of ''10.0.6.0'' 24 [],
      subnet_of ''10.0.7.0'' 24 [], subnet_of ''10.0.8.0'' 24 [], subnet_of ''10.0.9.0'' 24 [],
      subnet_of ''10.1.0.0'' 24 [], subnet_of ''10.2.0.0'' 24 [],
      subnet_of ''10.9.0.0'' 24 ''second'', subnet_of ''10.9.0.0'' 24 ''first'']"
  by code_simp

text \<open>Seven records are enough for the order of two equal records to change.\<close>

lemma seven_run:
  "Sort SubnetsSorter seven_input =
     [subnet_of ''10.0.0.1'' 24 [], subnet_of ''10.0.0.2'' 24 ''second'',
      subnet_of ''10.0.0.2'' 24 ''first'', subnet_of ''10.0.0.3'' 24 [],
      subnet_of ''10.0.0.4'' 24 [], subnet_of ''10.0.0.5'' 24 [], subnet_of ''10.0.0.6'' 24 []]"
  by code_simp

lemma seven_unstable:
  "length seven_input = 7 \<and>
   filter (same_block ''10.0.0.2'' 24) seven_input
     = [subnet_of ''10.0.0.2'' 24 ''first'', subnet_of ''10.0.0.2'' 24 ''second''] \<and>
   filter (same_block ''10.0.0.2'' 24) (Sort SubnetsSorter seven_input)
     = [subnet_of ''10.0.0.2'' 24 ''second'', subnet_of ''10.0.0.2'' 24 ''first'']"
  unfolding seven_run by (simp add: seven_input_def same_block_def subnet_of_def)

text \<open>Claim C2, as stated, fails: \<open>sort.Sort\<close> is not a stable sort. In a list of thirteen
  records whose first two have the same address and mask and differ in their description, the
  record that came second is placed before the record that came first.\<close>

theorem Sort_not_stable:
  "Sort SubnetsSorter unstable_input ! 11 = unstable_input ! 1 \<and>
   Sort SubnetsSorter unstable_input ! 12 = unstable_input ! 0 \<and>
   SubnetAddress (unstable_input ! 0) = SubnetAddress (unstable_input ! 1) \<and>
   Mask (unstable_input ! 0) = Mask (unstable_input ! 1) \<and>
   unstable_input ! 0 \<noteq> unstable_input ! 1 \<and>
   filter (same_block ''10.9.0.0'' 24) unstable_input
     = [subnet_of ''10.9.0.0'' 24 ''first'', subnet_of ''10.9.0.0'' 24 ''second''] \<and>
   filter (same_block ''10.9.0.0'' 24) (Sort SubnetsSorter unstable_input)
     = [subnet_of ''10.9.0.0'' 24 ''second'', subnet_of ''10.9.0.0'' 24 ''first'']"
proof -
  have "Description (unstable_input ! 0) \<noteq> Description (unstable_input ! 1)"
    by (simp add: unstable_input_def subnet_of_def)
  then have "unstable_input ! 0 \<noteq> unstable_input ! 1"
    by auto
  moreover have "filter (same_block ''10.9.0.0'' 24) unstable_input
     = [subnet_of ''10.9.0.0'' 24 ''first'', subnet_of ''10.9.0.0'' 24 ''second'']"
    by (simp add: unstable_input_def same_block_def subnet_of_def)
  moreover have "filter (same_block ''10.9.0.0'' 24) (Sort SubnetsSorter unstable_input)
     = [subnet_of ''10.9.0.0'' 24 ''second'', subnet_of ''10.9.0.0'' 24 ''first'']"
    unfolding unstable_run by (simp add: same_block_def subnet_of_def)
  ultimately show ?thesis
    unfolding unstable_run by (simp add: unstable_input_def subnet_of_def)
qed

lemma string_less_irrefl: "\<not> string_less a a"
  by (induction a) simp_all

lemma filter_swap_adjacent:
  "Suc k < length xs \<Longrightarrow> \<not> (P (xs ! k) \<and> P (xs ! Suc k)) \<Longrightarrow>
   filter P (xs[Suc k := xs ! k, k := xs ! Suc k]) = filter P xs"
proof (induction xs arbitrary: k)
  case (Cons v vs)
  show ?case
  proof (cases k)
    case 0
    with Cons.prems obtain w ws where "vs = w # ws" by (cases vs) auto
    with 0 Cons.prems show ?thesis by auto
  next
    case (Suc k')
    with Cons.prems have "Suc k' < length vs" "\<not> (P (vs ! k') \<and> P (vs ! Suc k'))" by simp_all
    from Cons.IH [OF this] Suc show ?thesis by simp
  qed
qed simp

lemma Swap_adjacent_stable:
  assumes "0 < j" "j < length s" "Less SubnetsSorter s j (j - 1)"
  shows "filter (same_block a m) (Swap SubnetsSorter s j (j - 1)) = filter (same_block a m) s"
    and "length (Swap SubnetsSorter s j (j - 1)) = length s"
proof -
  obtain k where k: "j = Suc k" using assms(1) by (cases j) auto
  have "string_less (Sprintf_s_d (SubnetAddress (s ! Suc k)) (Mask (s ! Suc k)))
                    (Sprintf_s_d (SubnetAddress (s ! k)) (Mask (s ! k)))"
    using assms(3) by (simp add: k SubnetsSorter_def SubnetsSorter_Less_def)
  then have "\<not> (SubnetAddress (s ! Suc k) = SubnetAddress (s ! k) \<and> Mask (s ! Suc k) = Mask (s ! k))"
    using string_less_irrefl by auto
  then have "\<not> (same_block a m (s ! k) \<and> same_block a m (s ! Suc k))"
    by (auto simp: same_block_def)
  with assms(2) k have "filter (same_block a m) (s[Suc k := s ! k, k := s ! Suc k])
                        = filter (same_block a m) s"
    by (intro filter_swap_adjacent) simp_all
  then show "filter (same_block a m) (Swap SubnetsSorter s j (j - 1)) = filter (same_block a m) s"
    by (simp add: k SubnetsSorter_def SubnetsSorter_Swap_def)
  show "length (Swap SubnetsSorter s j (j - 1)) = length s"
    by (simp add: SubnetsSorter_def SubnetsSorter_Swap_def)
qed

lemma insertionSort_inner_stable:
  "j < length s \<Longrightarrow>
   filter (same_block a m) (insertionSort_inner SubnetsSorter s lo j) = filter (same_block a m) s \<and>
   length (insertionSort_inner SubnetsSorter s lo j) = length s"
proof (induction SubnetsSorter s lo j rule: insertionSort_inner.induct)
  case (1 s lo j)
  show ?case
  proof (cases "j > lo \<and> Less SubnetsSorter s j (j - 1)")
    case False
    then have "insertionSort_inner SubnetsSorter s lo j = s"
      by (subst insertionSort_inner.simps) auto
    then show ?thesis by simp
  next
    case True
    then have pos: "0 < j" and less: "Less SubnetsSorter s j (j - 1)" by simp_all
    note sw = Swap_adjacent_stable(1) [OF pos "1.prems" less, of a m]
      Swap_adjacent_stable(2) [OF pos "1.prems" less]
    have "j - 1 < length (Swap SubnetsSorter s j (j - 1))"
      using True "1.prems" sw(2) by simp
    moreover have "insertionSort_inner SubnetsSorter s lo j
          = insertionSort_inner SubnetsSorter (Swap SubnetsSorter s j (j - 1)) lo (j - 1)"
      using True by (subst insertionSort_inner.simps) auto
    ultimately show ?thesis
      using "1.hyps" [OF True] sw by simp
  qed
qed

lemma insertionSort_outer_stable:
  "b \<le> length s \<Longrightarrow>
   filter (same_block a m) (insertionSort_outer SubnetsSorter s lo b i) = filter (same_block a m) s \<and>
   length (insertionSort_outer SubnetsSorter s lo b i) = length s"
proof (induction SubnetsSorter s lo b i rule: insertionSort_outer.induct)
  case (1 s lo b i)
  show ?case
  proof (cases "i < b")
    case False
    then have "insertionSort_outer SubnetsSorter s lo b i = s"
      by (subst insertionSort_outer.simps) auto
    then show ?thesis by simp
  next
    case True
    with "1.prems" have "i < length s" by simp
    note inner = insertionSort_inner_stable [OF this, of a m lo]
    have "b \<le> length (insertionSort_inner SubnetsSorter s lo i)"
      using inner "1.prems" by simp
    moreover have "insertionSort_outer SubnetsSorter s lo b i
          = insertionSort_outer SubnetsSorter (insertionSort_inner SubnetsSorter s lo i) lo b (i + 1)"
      using True by (subst insertionSort_outer.simps) auto
    ultimately show ?thesis
      using "1.hyps" [OF True] inner by simp
  qed
qed

text \<open>Claim C2, amended. For every list of at most six records, the records of one address and
  mask are, after \<open>sort.Sort\<close>, in the order they had before: on such a list the sort is an
  insertion sort, which only ever swaps two neighbours of which the later is strictly smaller.\<close>

theorem Sort_stable_upto_six:
  assumes "length nets \<le> 6"
  shows "filter (same_block a m) (Sort SubnetsSorter nets) = filter (same_block a m) nets"
proof -
  have len: "Len SubnetsSorter nets = length nets"
    by (simp add: SubnetsSorter_def SubnetsSorter_Len_def)
  have sh: "shellPass SubnetsSorter nets (length nets) 6 = nets"
    using assms by (subst shellPass.simps) simp
  have "Sort SubnetsSorter nets =
        (if length nets > 1 then insertionSort SubnetsSorter nets 0 (length nets) else nets)"
    using assms unfolding Sort_def len Let_def
    by (subst quickSort.simps) (simp add: sh)
  then show ?thesis
    using insertionSort_outer_stable [of "length nets" nets a m 0 1]
    by (simp add: insertionSort_def)
qed

theorem Sort_stable_upto_six_witness:
  "length [subnet_of ''10.0.0.2'' 24 ''first'', subnet_of ''10.0.0.1'' 24 [],
           subnet_of ''10.0.0.2'' 24 ''second''] \<le> 6 \<and>
   filter (same_block ''10.0.0.2'' 24)
     (Sort SubnetsSorter [subnet_of ''10.0.0.2'' 24 ''first'', subnet_of ''10.0.0.1'' 24 [],
                          subnet_of ''10.0.0.2'' 24 ''second''])
     = [subnet_of ''10.0.0.2'' 24 ''first'', subnet_of ''10.0.0.2'' 24 ''second'']"
proof -
  let ?nets = "[subnet_of ''10.0.0.2'' 24 ''first'', subnet_of ''10.0.0.1'' 24 [],
                subnet_of ''10.0.0.2'' 24 ''second'']"
  have l: "length ?nets \<le> 6" by simp
  have "filter (same_block ''10.0.0.2'' 24) ?nets
          = [subnet_of ''10.0.0.2'' 24 ''first'', subnet_of ''10.0.0.2'' 24 ''second'']"
    by (simp add: same_block_def subnet_of_def)
  with Sort_stable_upto_six [OF l, of "''10.0.0.2''" 24] l show ?thesis by simp
qed


section \<open>The sort only permutes\<close>

text \<open>
  Every \<open>Swap\<close> that \<open>sort.Sort\<close> asks of the sorter is at two indices inside the list, so
  the sorted list holds the records of the input, each as often as the input does.
\<close>

lemma Swap_mset:
  "i < length s \<Longrightarrow> j < length s \<Longrightarrow> mset (Swap SubnetsSorter s i j) = mset s"
  by (simp add: SubnetsSorter_def SubnetsSorter_Swap_def mset_swap)

lemma Swap_length [simp]: "length (Swap SubnetsSorter s i j) = length s"
  by (simp add: SubnetsSorter_def SubnetsSorter_Swap_def)

lemma insertionSort_inner_mset:
  "j < length s \<Longrightarrow> mset (insertionSort_inner SubnetsSorter s a j) = mset s"
proof (induction SubnetsSorter s a j rule: insertionSort_inner.induct)
  case (1 s a j)
  show ?case
  proof (cases "j > a \<and> Less SubnetsSorter s j (j - 1)")
    case False
    then show ?thesis by (subst insertionSort_inner.simps) auto
  next
    case True
    have "mset (insertionSort_inner SubnetsSorter (Swap SubnetsSorter s j (j - 1)) a (j - 1))
            = mset (Swap SubnetsSorter s j (j - 1))"
      using True "1.prems" by (intro "1.hyps") simp_all
    also have "\<dots> = mset s"
      using "1.prems" by (intro Swap_mset) simp_all
    finally show ?thesis
      using True by (subst insertionSort_inner.simps) auto
  qed
qed

lemma insertionSort_outer_mset:
  "b \<le> length s \<Longrightarrow> mset (insertionSort_outer SubnetsSorter s a b i) = mset s"
proof (induction SubnetsSorter s a b i rule: insertionSort_outer.induct)
  case (1 s a b i)
  show ?case
  proof (cases "i < b")
    case False
    then show ?thesis by (subst insertionSort_outer.simps) auto
  next
    case True
    have inner: "mset (insertionSort_inner SubnetsSorter s a i) = mset s"
      using True "1.prems" by (intro insertionSort_inner_mset) simp
    then have "length (insertionSort_inner SubnetsSorter s a i) = length s"
      by (rule mset_eq_length)
    then have "mset (insertionSort_outer SubnetsSorter (insertionSort_inner SubnetsSorter s a i) a b (i + 1))
            = mset (insertionSort_inner SubnetsSorter s a i)"
      using True "1.prems" by (intro "1.hyps") simp_all
    with inner show ?thesis
      using True by (subst insertionSort_outer.simps) auto
  qed
qed

lemma shellPass_mset:
  "b \<le> length s \<Longrightarrow> mset (shellPass SubnetsSorter s b i) = mset s"
proof (induction SubnetsSorter s b i rule: shellPass.induct)
  case (1 s b i)
  show ?case
  proof (cases "i < b")
    case False
    then show ?thesis by (subst shellPass.simps) auto
  next
    case True
    let ?s' = "if Less SubnetsSorter s i (i - 6) then Swap SubnetsSorter s i (i - 6) else s"
    have step: "mset ?s' = mset s"
      using True "1.prems" by (simp add: Swap_mset)
    then have "length ?s' = length s"
      by (rule mset_eq_length)
    then have "mset (shellPass SubnetsSorter ?s' b (i + 1)) = mset ?s'"
      using True "1.prems" by (intro "1.hyps") simp_all
    with step show ?thesis
      using True by (subst shellPass.simps) auto
  qed
qed

lemma siftDown_loop_mset:
  "first + hi \<le> length s \<Longrightarrow> mset (siftDown_loop SubnetsSorter s root hi first) = mset s"
proof (induction SubnetsSorter s root hi first rule: siftDown_loop.induct)
  case (1 s root hi first)
  let ?k = "2 * root + 1"
  let ?c = "if ?k + 1 < hi \<and> Less SubnetsSorter s (first + ?k) (first + ?k + 1)
            then ?k + 1 else ?k"
  show ?case
  proof (cases "?k \<ge> hi \<or> \<not> Less SubnetsSorter s (first + root) (first + ?c)")
    case True
    then show ?thesis by (subst siftDown_loop.simps) (auto simp: Let_def)
  next
    case False
    then have lt: "?k < hi" and less: "Less SubnetsSorter s (first + root) (first + ?c)"
      by auto
    have c: "?c < hi" using lt by auto
    have r: "root < hi" using lt by simp
    have sw: "mset (Swap SubnetsSorter s (first + root) (first + ?c)) = mset s"
    proof (rule Swap_mset)
      show "first + root < length s" using r "1.prems" by simp
      show "first + ?c < length s" using c "1.prems" by linarith
    qed
    have "mset (siftDown_loop SubnetsSorter (Swap SubnetsSorter s (first + root) (first + ?c)) ?c hi first)
            = mset (Swap SubnetsSorter s (first + root) (first + ?c))"
      using lt less "1.prems" by (intro "1.hyps") (auto simp: Let_def)
    with sw show ?thesis
      using lt less by (subst siftDown_loop.simps) (auto simp: Let_def)
  qed
qed

lemma heapSort_build_mset:
  "first + hi \<le> length s \<Longrightarrow> mset (heapSort_build SubnetsSorter s i hi first) = mset s"
proof (induction SubnetsSorter s i hi first rule: heapSort_build.induct)
  case (1 s i hi first)
  show ?case
  proof (cases "i \<ge> 0")
    case False
    then show ?thesis by (subst heapSort_build.simps) auto
  next
    case True
    have down: "mset (siftDown SubnetsSorter s (nat i) hi first) = mset s"
      using "1.prems" by (simp add: siftDown_def siftDown_loop_mset)
    then have "length (siftDown SubnetsSorter s (nat i) hi first) = length s"
      by (rule mset_eq_length)
    then have "mset (heapSort_build SubnetsSorter (siftDown SubnetsSorter s (nat i) hi first) (i - 1) hi first)
            = mset (siftDown SubnetsSorter s (nat i) hi first)"
      using True "1.prems" by (intro "1.hyps") simp_all
    with down show ?thesis
      using True by (subst heapSort_build.simps) auto
  qed
qed

lemma heapSort_pop_mset:
  "int first + i < int (length s) \<Longrightarrow> mset (heapSort_pop SubnetsSorter s i first) = mset s"
proof (induction SubnetsSorter s i first rule: heapSort_pop.induct)
  case (1 s i first)
  show ?case
  proof (cases "i \<ge> 0")
    case False
    then show ?thesis by (subst heapSort_pop.simps) auto
  next
    case True
    let ?s1 = "Swap SubnetsSorter s first (first + nat i)"
    let ?s2 = "siftDown SubnetsSorter ?s1 0 (nat i) first"
    have sw: "mset ?s1 = mset s"
      using True "1.prems" by (intro Swap_mset) auto
    have "first + nat i \<le> length ?s1"
      using True "1.prems" by simp
    then have "mset ?s2 = mset ?s1"
      by (simp add: siftDown_def siftDown_loop_mset)
    with sw have down: "mset ?s2 = mset s" by simp
    then have "length ?s2 = length s"
      by (rule mset_eq_length)
    then have "mset (heapSort_pop SubnetsSorter ?s2 (i - 1) first) = mset ?s2"
      using True "1.prems" by (intro "1.hyps") simp_all
    with down show ?thesis
      using True by (subst heapSort_pop.simps) auto
  qed
qed

lemma heapSort_mset:
  assumes "a < b" "b \<le> length s"
  shows "mset (heapSort SubnetsSorter s a b) = mset s"
proof -
  let ?s1 = "heapSort_build SubnetsSorter s (int ((b - a - 1) div 2)) (b - a) a"
  have build: "mset ?s1 = mset s"
    using assms by (intro heapSort_build_mset) simp
  then have "length ?s1 = length s"
    by (rule mset_eq_length)
  then have "mset (heapSort_pop SubnetsSorter ?s1 (int (b - a) - 1) a) = mset ?s1"
    using assms by (intro heapSort_pop_mset) simp
  with build show ?thesis
    by (simp add: heapSort_def Let_def)
qed

lemma medianOfThree_mset:
  assumes "m0 < length s" "m1 < length s" "m2 < length s"
  shows "mset (medianOfThree SubnetsSorter s m1 m0 m2) = mset s"
  using assms by (simp add: medianOfThree_def Let_def Swap_mset)

lemma scan_le_max: "scan_le I data pivot b c \<le> max b c"
proof (cases "b \<le> c")
  case True
  then show ?thesis using scan_le_le [of b c I data pivot] by simp
next
  case False
  then show ?thesis by (subst scan_le.simps) simp
qed

lemma partition_loop_mset:
  assumes "b \<le> B" "c \<le> B" "B < length s"
  shows "case partition_loop SubnetsSorter s pivot b c of
           (s', b', c') \<Rightarrow> mset s' = mset s \<and> b' \<le> B \<and> c' \<le> B"
  using assms
proof (induction SubnetsSorter s pivot b c rule: partition_loop.induct)
  case (1 s pivot b c)
  let ?b = "scan_le SubnetsSorter s pivot b c"
  let ?c = "scan_gt SubnetsSorter s pivot ?b c"
  have b: "?b \<le> B" using scan_le_max [of SubnetsSorter s pivot b c] "1.prems" by simp
  have c: "?c \<le> c" by (rule scan_gt_le)
  show ?case
  proof (cases "?b \<ge> ?c")
    case True
    then show ?thesis
      using b c "1.prems" by (subst partition_loop.simps) (simp add: Let_def)
  next
    case False
    let ?s1 = "Swap SubnetsSorter s ?b (?c - 1)"
    have sw: "mset ?s1 = mset s"
      using False c "1.prems" by (intro Swap_mset) simp_all
    have "case partition_loop SubnetsSorter ?s1 pivot (?b + 1) (?c - 1) of
           (s', b', c') \<Rightarrow> mset s' = mset ?s1 \<and> b' \<le> B \<and> c' \<le> B"
      using False c "1.prems" by (intro "1.hyps") simp_all
    with sw show ?thesis
      using False by (subst partition_loop.simps) (simp add: Let_def)
  qed
qed

lemma protect_loop_mset:
  assumes "b \<le> B" "B < length s"
  shows "case protect_loop SubnetsSorter s pivot a b of
           (s', b') \<Rightarrow> mset s' = mset s \<and> b' \<le> B"
  using assms
proof (induction SubnetsSorter s pivot a b rule: protect_loop.induct)
  case (1 s pivot a b)
  let ?b = "dup_scan_down SubnetsSorter s pivot a b"
  let ?a = "scan_lt SubnetsSorter s pivot a ?b"
  have b: "?b \<le> b" by (rule dup_scan_down_le)
  show ?case
  proof (cases "?a \<ge> ?b")
    case True
    then show ?thesis
      using b "1.prems" by (subst protect_loop.simps) (simp add: Let_def)
  next
    case False
    let ?s1 = "Swap SubnetsSorter s ?a (?b - 1)"
    have sw: "mset ?s1 = mset s"
      using False b "1.prems" by (intro Swap_mset) simp_all
    have "case protect_loop SubnetsSorter ?s1 pivot (?a + 1) (?b - 1) of
           (s', b') \<Rightarrow> mset s' = mset ?s1 \<and> b' \<le> B"
      using False b "1.prems" by (intro "1.hyps") simp_all
    with sw show ?thesis
      using False by (subst protect_loop.simps) (simp add: Let_def)
  qed
qed

lemma scan_lt_le: "a \<le> c \<Longrightarrow> scan_lt I data pivot a c \<le> c"
  by (induction I data pivot a c rule: scan_lt.induct) (subst scan_lt.simps, auto)

lemma doPivot_mset:
  assumes "lo + 12 < hi" "hi \<le> length s"
  shows "case doPivot SubnetsSorter s lo hi of
           (s', mlo, mhi) \<Rightarrow> mset s' = mset s \<and> mlo < hi \<and> mhi \<le> hi"
proof -
  define m where "m = lo + (hi - lo) div 2"
  define d1 where "d1 = (if hi - lo > 40
                  then (let k = (hi - lo) div 8;
                            data = medianOfThree SubnetsSorter s lo (lo + k) (lo + 2 * k);
                            data = medianOfThree SubnetsSorter data m (m - k) (m + k)
                        in medianOfThree SubnetsSorter data (hi - 1) (hi - 1 - k) (hi - 1 - 2 * k))
                  else s)"
  define d2 where "d2 = medianOfThree SubnetsSorter d1 lo m (hi - 1)"
  define a where "a = scan_lt SubnetsSorter d2 lo (lo + 1) (hi - 1)"
  define dup where "dup = (\<lambda>(data :: Subnet list, b :: nat, c :: nat).
     (if \<not> (hi - c < 5) \<and> hi - c < (hi - lo) div 4
      then (let (data, c, dups) =
                  (if \<not> Less SubnetsSorter data lo (hi - 1)
                   then (Swap SubnetsSorter data c (hi - 1), c + 1, 1::nat) else (data, c, 0));
                (b, dups) =
                  (if \<not> Less SubnetsSorter data (b - 1) lo then (b - 1, dups + 1) else (b, dups));
                (data, b, dups) =
                  (if \<not> Less SubnetsSorter data m lo
                   then (Swap SubnetsSorter data m (b - 1), b - 1, dups + 1) else (data, b, dups))
            in (data, b, c, dups > 1))
      else (data, b, c, hi - c < 5)))"
  define fin where "fin = (\<lambda>(data :: Subnet list, b :: nat, c :: nat, protect :: bool).
     (let (data, b) = (if protect then protect_loop SubnetsSorter data lo a b else (data, b));
          data = Swap SubnetsSorter data lo (b - 1)
      in (data, b - 1, c)))"
  have eq: "doPivot SubnetsSorter s lo hi = fin (dup (partition_loop SubnetsSorter d2 lo a (hi - 1)))"
    unfolding doPivot_def fin_def dup_def a_def d2_def d1_def m_def Let_def split_def
    by (rule refl)
  have m: "m < hi" "lo \<le> m" using assms by (simp_all add: m_def) 
  have len: "lo < length s" "m < length s" "hi - 1 < length s"
    using assms m by simp_all
  have d1: "mset d1 = mset s"
  proof (cases "hi - lo > 40")
    case False
    then show ?thesis by (simp add: d1_def)
  next
    case True
    define k where "k = (hi - lo) div 8"
    have k: "lo + 2 * k < hi" "m + k < hi" using True by (simp_all add: k_def m_def)
    let ?e1 = "medianOfThree SubnetsSorter s lo (lo + k) (lo + 2 * k)"
    let ?e2 = "medianOfThree SubnetsSorter ?e1 m (m - k) (m + k)"
    let ?e3 = "medianOfThree SubnetsSorter ?e2 (hi - 1) (hi - 1 - k) (hi - 1 - 2 * k)"
    have e1: "mset ?e1 = mset s"
      using k assms by (intro medianOfThree_mset) simp_all
    then have l1: "length ?e1 = length s" by (rule mset_eq_length)
    have e2: "mset ?e2 = mset ?e1"
      using k assms l1 by (intro medianOfThree_mset) simp_all
    then have l2: "length ?e2 = length ?e1" by (rule mset_eq_length)
    have e3: "mset ?e3 = mset ?e2"
      using k assms l1 l2 by (intro medianOfThree_mset) simp_all
    have "d1 = ?e3" using True by (simp add: d1_def Let_def k_def)
    with e1 e2 e3 show ?thesis by simp
  qed
  then have l1: "length d1 = length s" by (rule mset_eq_length)
  have "mset d2 = mset d1"
    unfolding d2_def using len l1 by (intro medianOfThree_mset) simp_all
  with d1 have d2: "mset d2 = mset s" by simp
  then have l2: "length d2 = length s" by (rule mset_eq_length)
  have a: "a \<le> hi - 1"
    unfolding a_def using assms by (intro scan_lt_le) simp
  obtain d3 b c where p: "partition_loop SubnetsSorter d2 lo a (hi - 1) = (d3, b, c)"
    by (cases "partition_loop SubnetsSorter d2 lo a (hi - 1)") auto
  have "hi - 1 < length d2" using len l2 by simp
  from partition_loop_mset [OF a order_refl this, of lo] p d2
  have d3: "mset d3 = mset s" and b: "b \<le> hi - 1" and c: "c \<le> hi - 1"
    by simp_all
  from d3 have l3: "length d3 = length s" by (rule mset_eq_length)
  obtain d4 b4 c4 pr where q: "dup (d3, b, c) = (d4, b4, c4, pr)"
    by (cases "dup (d3, b, c)") auto
  have sw1: "mset (Swap SubnetsSorter d3 c (hi - 1)) = mset s"
    using c len l3 d3 by (simp add: Swap_mset)
  have sw2: "mset (Swap SubnetsSorter d3 m (b - 1)) = mset s"
       "mset (Swap SubnetsSorter d3 m (b - 1 - 1)) = mset s"
    using b len l3 d3 by (simp_all add: Swap_mset)
  have sw3: "mset (Swap SubnetsSorter (Swap SubnetsSorter d3 c (hi - 1)) m (b - 1)) = mset s"
       "mset (Swap SubnetsSorter (Swap SubnetsSorter d3 c (hi - 1)) m (b - 1 - 1)) = mset s"
    using b len l3 sw1 by (simp_all add: Swap_mset)
  have d4: "mset d4 = mset s \<and> b4 \<le> hi - 1 \<and> c4 \<le> hi"
    using q b c sw1 sw2 sw3 d3 assms
    by (auto simp: dup_def Let_def split: if_splits)
  then have l4: "length d4 = length s" using mset_eq_length by blast
  obtain d5 b5 where r: "(if pr then protect_loop SubnetsSorter d4 lo a b4 else (d4, b4)) = (d5, b5)"
    by (cases "if pr then protect_loop SubnetsSorter d4 lo a b4 else (d4, b4)") auto
  have "hi - 1 < length d4" using len l4 by simp
  from protect_loop_mset [OF _ this, of b4 lo a] d4 r
  have d5: "mset d5 = mset s \<and> b5 \<le> hi - 1"
    by (auto split: if_splits)
  then have l5: "length d5 = length s" using mset_eq_length by blast
  have "b5 - 1 < length d5" using d5 len l5 by linarith
  then have "mset (Swap SubnetsSorter d5 lo (b5 - 1)) = mset d5"
    using len l5 by (intro Swap_mset) simp_all
  with d5 have d6: "mset (Swap SubnetsSorter d5 lo (b5 - 1)) = mset s" by simp
  have "fin (d4, b4, c4, pr) = (Swap SubnetsSorter d5 lo (b5 - 1), b5 - 1, c4)"
    using r by (simp add: fin_def Let_def)
  with eq p q have "doPivot SubnetsSorter s lo hi = (Swap SubnetsSorter d5 lo (b5 - 1), b5 - 1, c4)"
    by simp
  moreover have "b5 - 1 < hi" "c4 \<le> hi" using d5 d4 assms by linarith+
  ultimately show ?thesis using d6 by simp
qed

lemma quickSort_mset:
  "b \<le> length s \<Longrightarrow> mset (quickSort SubnetsSorter s a b d) = mset s"
proof (induction SubnetsSorter s a b d rule: quickSort.induct)
  case (1 s a b d)
  consider "12 < b - a" "d = 0" | "12 < b - a" "d \<noteq> 0" | "\<not> 12 < b - a" "1 < b - a"
    | "\<not> 1 < b - a"
    by linarith
  then show ?case
  proof cases
    case 1
    then have "mset (heapSort SubnetsSorter s a b) = mset s"
      using "1.prems" by (intro heapSort_mset) simp_all
    with 1 show ?thesis by (subst quickSort.simps) simp
  next
    case 2
    obtain s' mlo mhi where p: "doPivot SubnetsSorter s a b = (s', mlo, mhi)"
      by (cases "doPivot SubnetsSorter s a b") auto
    from doPivot_mset [of a b s] 2 "1.prems" p
    have s': "mset s' = mset s" and mlo: "mlo < b" and mhi: "mhi \<le> b"
      by simp_all
    from s' have l': "length s' = length s" by (rule mset_eq_length)
    show ?thesis
    proof (cases "int mlo - int a < int b - int mhi")
      case True
      have r1: "mset (quickSort SubnetsSorter s' a mlo (d - 1)) = mset s'"
        using 2 p True mlo l' "1.prems" by (intro "1.hyps"(1) [of s' "(mlo, mhi)" mlo mhi]) simp_all
      then have "length (quickSort SubnetsSorter s' a mlo (d - 1)) = length s'"
        by (rule mset_eq_length)
      then have "mset (quickSort SubnetsSorter (quickSort SubnetsSorter s' a mlo (d - 1)) mhi b (d - 1))
                   = mset (quickSort SubnetsSorter s' a mlo (d - 1))"
        using 2 p True l' "1.prems" by (intro "1.hyps"(2) [of s' "(mlo, mhi)" mlo mhi]) simp_all
      with r1 s' show ?thesis
        using 2 p True by (subst quickSort.simps) simp
    next
      case False
      have r1: "mset (quickSort SubnetsSorter s' mhi b (d - 1)) = mset s'"
        using 2 p False l' "1.prems" by (intro "1.hyps"(3) [of s' "(mlo, mhi)" mlo mhi]) simp_all
      then have "length (quickSort SubnetsSorter s' mhi b (d - 1)) = length s'"
        by (rule mset_eq_length)
      then have "mset (quickSort SubnetsSorter (quickSort SubnetsSorter s' mhi b (d - 1)) a mlo (d - 1))
                   = mset (quickSort SubnetsSorter s' mhi b (d - 1))"
        using 2 p False mlo l' "1.prems" by (intro "1.hyps"(4) [of s' "(mlo, mhi)" mlo mhi]) simp_all
      with r1 s' show ?thesis
        using 2 p False by (subst quickSort.simps) simp
    qed
  next
    case 3
    have sh: "mset (shellPass SubnetsSorter s b (a + 6)) = mset s"
      using "1.prems" by (rule shellPass_mset)
    then have "length (shellPass SubnetsSorter s b (a + 6)) = length s"
      by (rule mset_eq_length)
    then have "mset (insertionSort SubnetsSorter (shellPass SubnetsSorter s b (a + 6)) a b)
                 = mset (shellPass SubnetsSorter s b (a + 6))"
      using "1.prems" by (simp add: insertionSort_def insertionSort_outer_mset)
    with sh 3 show ?thesis by (subst quickSort.simps) simp
  next
    case 4
    then show ?thesis by (subst quickSort.simps) simp
  qed
qed

lemma Sort_mset: "mset (Sort SubnetsSorter nets) = mset nets"
proof -
  have "Len SubnetsSorter nets = length nets"
    by (simp add: SubnetsSorter_def SubnetsSorter_Len_def)
  then show ?thesis
    by (simp add: Sort_def Let_def quickSort_mset)
qed


section \<open>The records created\<close>

lemma same_but_parent_erased:
  "same_but_parent c v \<Longrightarrow> c\<lparr>MasterSubnetID := 0\<rparr> = v\<lparr>MasterSubnetID := 0\<rparr>"
proof -
  assume "same_but_parent c v"
  then have "c\<lparr>MasterSubnetID := MasterSubnetID v\<rparr> = v" by (simp add: same_but_parent_def)
  then have "(c\<lparr>MasterSubnetID := MasterSubnetID v\<rparr>)\<lparr>MasterSubnetID := 0\<rparr> = v\<lparr>MasterSubnetID := 0\<rparr>"
    by simp
  then show ?thesis by simp
qed

lemma list_all2_same_but_parent_erased:
  "list_all2 same_but_parent cs vs \<Longrightarrow>
   map (\<lambda>c. c\<lparr>MasterSubnetID := 0\<rparr>) cs = map (\<lambda>v. v\<lparr>MasterSubnetID := 0\<rparr>) vs"
  by (induction rule: list_all2_induct) (simp_all add: same_but_parent_erased)

lemma list_all2_same_but_parent_ex:
  assumes "list_all2 same_but_parent cs (take n vs)" and "set vs = set nets"
  shows "list_all (\<lambda>c. list_ex (same_but_parent c) nets) cs"
proof -
  have "\<exists>v\<in>set nets. same_but_parent c v" if "c \<in> set cs" for c
  proof -
    have "list_all2 same_but_parent xs ys \<Longrightarrow> c \<in> set xs \<Longrightarrow>
          \<exists>v\<in>set ys. same_but_parent c v" for xs ys
      by (induction rule: list_all2_induct) auto
    from this [OF assms(1) that] obtain v where "v \<in> set (take n vs)" "same_but_parent c v"
      by blast
    moreover have "set (take n vs) \<subseteq> set nets"
      using assms(2) set_take_subset by fastforce
    ultimately show ?thesis by blast
  qed
  then show ?thesis by (simp add: list_all_iff list_ex_iff)
qed

text \<open>
  Claim C10. The subnets that \<open>addSubnets\<close> creates are, in order, the records it
  processes, each with every field unchanged but \<open>MasterSubnetID\<close>, which is the
  identifier the resolver returned for that record when it is not 0 and is left as it was
  otherwise; \<open>SubnetAddress\<close>, \<open>Mask\<close>, \<open>Description\<close>, \<open>VLANID\<close> and \<open>SectionID\<close> pass
  through. The records processed are the extracted records in sorted order: \<open>sort.Sort\<close>
  only permutes them. So every record created is an extracted record but for its parent,
  and a phase that returns has created the extracted records, each once, but for their
  parents. The records \<open>fetchSubnets\<close> extracts have no parent set.
\<close>

theorem addSubnets_frame:
  "(\<exists>xs. snd (addSubnets t nets h) = h @ xs \<and>
      list_all2 (resolved_create t h (h @ xs)) (subnet_creations xs)
        (take (length (subnet_creations xs)) (Sort SubnetsSorter nets)) \<and>
      list_all2 same_but_parent (subnet_creations xs)
        (take (length (subnet_creations xs)) (Sort SubnetsSorter nets)) \<and>
      list_all (\<lambda>c. list_ex (same_but_parent c) nets) (subnet_creations xs) \<and>
      (fst (addSubnets t nets h) = Return () \<longrightarrow>
         mset (map (\<lambda>c. c\<lparr>MasterSubnetID := 0\<rparr>) (subnet_creations xs))
           = mset (map (\<lambda>v. v\<lparr>MasterSubnetID := 0\<rparr>) nets))) \<and>
   mset (Sort SubnetsSorter nets) = mset nets \<and>
   (fetchSubnets t sectionID conn h0 = (Return nets, h) \<longrightarrow>
      list_all (\<lambda>v. MasterSubnetID v = 0) nets)"
proof (intro conjI impI)
  let ?sorted = "Sort SubnetsSorter nets"
  have perm: "mset ?sorted = mset nets" by (rule Sort_mset)
  then have len: "length ?sorted = length nets" by (rule mset_eq_length)
  from perm have sets: "set ?sorted = set nets" by (rule mset_eq_setD)
  from addSubnets_loop_creations [of t ?sorted h]
  obtain xs where xs: "snd (addSubnets t nets h) = h @ xs"
    "list_all2 (resolved_create t h (h @ xs)) (subnet_creations xs)
        (take (length (subnet_creations xs)) ?sorted)"
    "fst (addSubnets t nets h) = Return () \<longrightarrow> length (subnet_creations xs) = length ?sorted"
    unfolding addSubnets_def by blast
  from xs(2) have frame: "list_all2 same_but_parent (subnet_creations xs)
        (take (length (subnet_creations xs)) ?sorted)"
    by (rule list_all2_mono) (rule resolved_create_frame)
  from frame sets have ex: "list_all (\<lambda>c. list_ex (same_but_parent c) nets) (subnet_creations xs)"
    by (rule list_all2_same_but_parent_ex)
  have all: "mset (map (\<lambda>c. c\<lparr>MasterSubnetID := 0\<rparr>) (subnet_creations xs))
           = mset (map (\<lambda>v. v\<lparr>MasterSubnetID := 0\<rparr>) nets)"
    if "fst (addSubnets t nets h) = Return ()"
  proof -
    from that xs(3) have "take (length (subnet_creations xs)) ?sorted = ?sorted" by simp
    with frame have "list_all2 same_but_parent (subnet_creations xs) ?sorted" by simp
    then have "map (\<lambda>c. c\<lparr>MasterSubnetID := 0\<rparr>) (subnet_creations xs)
                 = map (\<lambda>v. v\<lparr>MasterSubnetID := 0\<rparr>) ?sorted"
      by (rule list_all2_same_but_parent_erased)
    then show ?thesis using perm by simp
  qed
  from xs(1,2) frame ex all
  show "\<exists>xs. snd (addSubnets t nets h) = h @ xs \<and>
      list_all2 (resolved_create t h (h @ xs)) (subnet_creations xs)
        (take (length (subnet_creations xs)) (Sort SubnetsSorter nets)) \<and>
      list_all2 same_but_parent (subnet_creations xs)
        (take (length (subnet_creations xs)) (Sort SubnetsSorter nets)) \<and>
      list_all (\<lambda>c. list_ex (same_but_parent c) nets) (subnet_creations xs) \<and>
      (fst (addSubnets t nets h) = Return () \<longrightarrow>
         mset (map (\<lambda>c. c\<lparr>MasterSubnetID := 0\<rparr>) (subnet_creations xs))
           = mset (map (\<lambda>v. v\<lparr>MasterSubnetID := 0\<rparr>) nets))"
    by blast
next
  show "mset (Sort SubnetsSorter nets) = mset nets" by (rule Sort_mset)
next
  assume "fetchSubnets t sectionID conn h0 = (Return nets, h)"
  then show "list_all (\<lambda>v. MasterSubnetID v = 0) nets" by (rule fetchSubnets_no_parent)
qed

lemma Sort_single: "Sort SubnetsSorter [v] = [v]"
  by (simp add: Sort_def Let_def SubnetsSorter_def SubnetsSorter_Len_def quickSort.simps)

lemma addSubnets_example:
  "addSubnets (inventory [registered 5 ''10.0.0.0'' 8, registered 9 ''10.10.0.0'' 16])
     [subnet_of ''10.10.2.0'' 24 ''lab hosts''] []
   = (Return (), map GetSubnetsByCIDR
        [''10.10.2.0/23'', ''10.10.0.0/22'', ''10.10.0.0/21'', ''10.10.0.0/20'',
         ''10.10.0.0/19'', ''10.10.0.0/18'', ''10.10.0.0/17'', ''10.10.0.0/16'']
       @ [CreateSubnet ((subnet_of ''10.10.2.0'' 24 ''lab hosts'')\<lparr>MasterSubnetID := 9\<rparr>)])"
proof -
  have sel: "SubnetAddress (subnet_of ''10.10.2.0'' 24 ''lab hosts'') = ''10.10.2.0''"
    "Mask (subnet_of ''10.10.2.0'' 24 ''lab hosts'') = 24"
    by (simp_all add: subnet_of_def)
  have cr: "onCreateSubnet (inventory reg) h' v' = Inr []" for reg h' v'
    by (simp add: inventory_def)
  show ?thesis
    unfolding addSubnets_def Sort_single
    by (simp add: sel example_resolution [of 5 9] and_then_def cr del: map_append)
qed

theorem addSubnets_frame_witness:
  "fetchSubnets (inventory []) 1 example_db [CreateVLAN example_vlan]
     = (Return example_subnets, [CreateVLAN example_vlan, GetVLANsByNumber 7]) \<and>
   list_all (\<lambda>v. MasterSubnetID v = 0) example_subnets \<and>
   mset (Sort SubnetsSorter example_subnets) = mset example_subnets \<and>
   fst (addSubnets (inventory [registered 5 ''10.0.0.0'' 8, registered 9 ''10.10.0.0'' 16])
          [subnet_of ''10.10.2.0'' 24 ''lab hosts''] []) = Return () \<and>
   subnet_creations
     (snd (addSubnets (inventory [registered 5 ''10.0.0.0'' 8, registered 9 ''10.10.0.0'' 16])
             [subnet_of ''10.10.2.0'' 24 ''lab hosts''] []))
     = [(subnet_of ''10.10.2.0'' 24 ''lab hosts'')\<lparr>MasterSubnetID := 9\<rparr>] \<and>
   same_but_parent ((subnet_of ''10.10.2.0'' 24 ''lab hosts'')\<lparr>MasterSubnetID := 9\<rparr>)
     (subnet_of ''10.10.2.0'' 24 ''lab hosts'')"
proof -
  let ?t = "inventory [registered 5 ''10.0.0.0'' 8, registered 9 ''10.10.0.0'' 16]"
  let ?lab = "subnet_of ''10.10.2.0'' 24 ''lab hosts''"
  have cr: "subnet_creations (snd (addSubnets ?t [?lab] [])) = [?lab\<lparr>MasterSubnetID := 9\<rparr>]"
    by (simp add: addSubnets_example subnet_creations_append subnet_creations_lookups
        list_all_iff)
  from addSubnets_frame [of ?t "[?lab]" "[]"]
  have "list_all (\<lambda>c. list_ex (same_but_parent c) [?lab])
          (subnet_creations (snd (addSubnets ?t [?lab] [])))"
    by auto
  then have same: "same_but_parent (?lab\<lparr>MasterSubnetID := 9\<rparr>) ?lab"
    unfolding cr by simp
  from addSubnets_frame [of "inventory []" example_subnets
      "[CreateVLAN example_vlan, GetVLANsByNumber 7]" 1 example_db "[CreateVLAN example_vlan]"]
    fetchSubnets_example
  have "list_all (\<lambda>v. MasterSubnetID v = 0) example_subnets"
    "mset (Sort SubnetsSorter example_subnets) = mset example_subnets"
    by blast+
  with same cr fetchSubnets_example show ?thesis
    by (simp add: addSubnets_example)
qed

end
